theory Spec2Isabelle
  imports Complex_Main "HOL-Library.Product_Lexorder"
begin

section \<open>JavaScript values read from the JSON files\<close>

text \<open>
  The two collections are arrays of objects produced by \<^verbatim>\<open>JSON.parse\<close>. A field of
  such an object may be absent (reading it gives \<^verbatim>\<open>undefined\<close>) or hold any JSON value,
  which is why server.js normalises the collections after every load. Numbers are modelled
  as integers: the application only ever writes counters and millisecond time stamps.
\<close>

datatype jsval =
    JUndefined
  | JNull
  | JBool bool
  | JNum int
  | JStr string
  | JArr "jsval list"
  | JObj "(string \<times> jsval) list"

text \<open>Truthiness, as tested by \<^verbatim>\<open>!x\<close> and \<^verbatim>\<open>if (x)\<close>.\<close>

fun truthy :: "jsval \<Rightarrow> bool" where
  "truthy JUndefined = False"
| "truthy JNull = False"
| "truthy (JBool b) = b"
| "truthy (JNum n) = (n \<noteq> 0)"
| "truthy (JStr s) = (s \<noteq> [])"
| "truthy (JArr xs) = True"
| "truthy (JObj kvs) = True"

text \<open>\<^verbatim>\<open>typeof x === 'boolean'\<close>, \<^verbatim>\<open>typeof x === 'number'\<close> and \<^verbatim>\<open>Array.isArray(x)\<close>.\<close>

fun is_boolean :: "jsval \<Rightarrow> bool" where
  "is_boolean (JBool b) = True"
| "is_boolean v = False"

fun is_number :: "jsval \<Rightarrow> bool" where
  "is_number (JNum n) = True"
| "is_number v = False"

fun isArray :: "jsval \<Rightarrow> bool" where
  "isArray (JArr xs) = True"
| "isArray v = False"

text \<open>The elements of an array value; a value that is not an array has none.\<close>

fun elems :: "jsval \<Rightarrow> jsval list" where
  "elems (JArr xs) = xs"
| "elems v = []"

text \<open>Exceptions that the modelled code can raise.\<close>

datatype js_error = TypeError | SyntaxError | ENOENT | EEXIST | EISDIR

section \<open>Documents\<close>

text \<open>
  A user and a post as server.js writes them (\<^verbatim>\<open>/register\<close>, \<^verbatim>\<open>/upload\<close>). The fields
  that the normalisers inspect are dynamic values; the others have the type at which the
  application writes and compares them.
\<close>

record user =
  username :: string
  email :: string
  passwordPlain :: string
  joinedAt :: jsval
  isAdmin :: jsval
  banned :: jsval
  followers :: jsval
  following :: jsval

record post =
  post_id :: int
  title :: string
  caption :: string
  imageFilename :: string
  author :: string
  createdAt :: int
  likes :: jsval
  likedBy :: jsval
  comments :: jsval

section \<open>The store and the clock\<close>

text \<open>
  The state that the handlers share: the documents held by users.json and posts.json,
  the number of times each file has been written, and the clock. \<open>clock w k\<close> is what the
  \<open>k\<close>-th call of \<^verbatim>\<open>Date.now()\<close> returns.
\<close>

record world =
  users_json :: "user list"
  posts_json :: "post list"
  users_writes :: nat
  posts_writes :: nat
  clock :: "nat \<Rightarrow> int"
  clock_reads :: nat

definition Date_now :: "world \<Rightarrow> int \<times> world" where
  "Date_now w = (clock w (clock_reads w), w\<lparr>clock_reads := Suc (clock_reads w)\<rparr>)"

definition loadUsers :: "world \<Rightarrow> user list" where
  "loadUsers w = users_json w"

definition saveUsers :: "user list \<Rightarrow> world \<Rightarrow> world" where
  "saveUsers users w = w\<lparr>users_json := users, users_writes := Suc (users_writes w)\<rparr>"

definition loadPosts :: "world \<Rightarrow> post list" where
  "loadPosts w = posts_json w"

definition savePosts :: "post list \<Rightarrow> world \<Rightarrow> world" where
  "savePosts posts w = w\<lparr>posts_json := posts, posts_writes := Suc (posts_writes w)\<rparr>"

section \<open>Normalisation\<close>

text \<open>
  The body of the \<^verbatim>\<open>forEach\<close> callback of \<^verbatim>\<open>normaliseUsers\<close>; \<open>changed\<close> is the
  variable of the enclosing function that the callback sets.
\<close>

definition normalise_user :: "user \<Rightarrow> bool \<Rightarrow> world \<Rightarrow> user \<times> bool \<times> world" where
  "normalise_user u changed w =
     (let (u1, c1, w1) =
            (if \<not> truthy (joinedAt u)
             then (let (t, w') = Date_now w in (u\<lparr>joinedAt := JNum t\<rparr>, True, w'))
             else (u, changed, w));
          (u2, c2) =
            (if \<not> is_boolean (isAdmin u1) then (u1\<lparr>isAdmin := JBool False\<rparr>, True)
             else (u1, c1));
          (u3, c3) =
            (if \<not> is_boolean (banned u2) then (u2\<lparr>banned := JBool False\<rparr>, True)
             else (u2, c2));
          (u4, c4) =
            (if \<not> isArray (followers u3) then (u3\<lparr>followers := JArr []\<rparr>, True)
             else (u3, c3));
          (u5, c5) =
            (if \<not> isArray (following u4) then (u4\<lparr>following := JArr []\<rparr>, True)
             else (u4, c4))
      in (u5, c5, w1))"

fun forEach_users :: "user list \<Rightarrow> bool \<Rightarrow> world \<Rightarrow> user list \<times> bool \<times> world" where
  "forEach_users [] changed w = ([], changed, w)"
| "forEach_users (u # us) changed w =
     (let (u', c, w') = normalise_user u changed w;
          (us', c', w'') = forEach_users us c w'
      in (u' # us', c', w''))"

definition normaliseUsers :: "user list \<Rightarrow> world \<Rightarrow> user list \<times> world" where
  "normaliseUsers users w =
     (let (users', changed, w') = forEach_users users False w
      in (users', if changed then saveUsers users' w' else w'))"

definition normalise_post :: "post \<Rightarrow> post" where
  "normalise_post p =
     (let p1 = (if \<not> is_number (likes p) then p\<lparr>likes := JNum 0\<rparr> else p);
          p2 = (if \<not> isArray (likedBy p1) then p1\<lparr>likedBy := JArr []\<rparr> else p1);
          p3 = (if \<not> isArray (comments p2) then p2\<lparr>comments := JArr []\<rparr> else p2)
      in p3)"

text \<open>
  \<^verbatim>\<open>normalisePosts\<close> has the store at hand like every function of server.js, and returns
  it as it found it: the function contains no call of \<^verbatim>\<open>savePosts\<close>.
\<close>

definition normalisePosts :: "post list \<Rightarrow> world \<Rightarrow> post list \<times> world" where
  "normalisePosts posts w = (map normalise_post posts, w)"

text \<open>The canonical shape that normalisation establishes.\<close>

definition user_normalised :: "user \<Rightarrow> bool" where
  "user_normalised u =
     (truthy (joinedAt u) \<and> is_boolean (isAdmin u) \<and> is_boolean (banned u) \<and>
      isArray (followers u) \<and> isArray (following u))"

definition post_normalised :: "post \<Rightarrow> bool" where
  "post_normalised p = (is_number (likes p) \<and> isArray (likedBy p) \<and> isArray (comments p))"

section \<open>Requests and responses\<close>

text \<open>
  What a handler sends back: a redirect, \<^verbatim>\<open>res.status(n).send(text)\<close>, a view rendered
  with an error message, a page of posts, or an exception that escapes the handler.
\<close>

datatype response =
    Redirect string
  | Send nat string
  | RenderError nat string string
  | RenderPage string "post list" int int
  | Next
  | Threw js_error

text \<open>
  \<^verbatim>\<open>req.session.username\<close> and the fields of \<^verbatim>\<open>req.body\<close> and \<^verbatim>\<open>req.query\<close> are
  strings or absent; \<^verbatim>\<open>!x\<close> holds of an absent field and of the empty string.
\<close>

fun falsy :: "string option \<Rightarrow> bool" where
  "falsy None = True"
| "falsy (Some s) = (s = [])"

text \<open>\<^verbatim>\<open>x || d\<close> for a string field \<open>x\<close> and a string \<open>d\<close>.\<close>

fun or_else :: "string option \<Rightarrow> string \<Rightarrow> string" where
  "or_else None d = d"
| "or_else (Some s) d = (if s = [] then d else s)"

subsection \<open>Library functions\<close>

definition is_ws :: "char \<Rightarrow> bool" where
  "is_ws c = (c \<in> set [CHR 0x09, CHR 0x0A, CHR 0x0B, CHR 0x0C, CHR 0x0D, CHR 0x20])"

definition is_digit :: "char \<Rightarrow> bool" where
  "is_digit c = (c \<in> set ''0123456789'')"

definition digit_value :: "char \<Rightarrow> int" where
  "digit_value c = int (of_char c) - 48"

text \<open>
  \<^verbatim>\<open>parseInt(s, 10)\<close>: leading white space is skipped, a sign is read, then the longest
  run of decimal digits; \<open>None\<close> is \<^verbatim>\<open>NaN\<close>. White space is the ASCII part of the
  ECMAScript set.
\<close>

definition parseInt10 :: "string \<Rightarrow> int option" where
  "parseInt10 s =
     (let s1 = dropWhile is_ws s;
          (sign, s2) =
            (case s1 of
               [] \<Rightarrow> (1, [])
             | c # r \<Rightarrow> if c = CHR ''-'' then (- 1, r) else if c = CHR ''+'' then (1, r) else (1, s1));
          z = takeWhile is_digit s2
      in if z = [] then None
         else Some (sign * foldl (\<lambda>a c. 10 * a + digit_value c) 0 z))"

text \<open>\<^verbatim>\<open>String.prototype.trim\<close>, on the same white space.\<close>

definition trim :: "string \<Rightarrow> string" where
  "trim s = rev (dropWhile is_ws (rev (dropWhile is_ws s)))"

text \<open>\<^verbatim>\<open>xs.indexOf(v)\<close>: the first index holding \<open>v\<close>; \<open>None\<close> is \<^verbatim>\<open>-1\<close>.\<close>

fun indexOf :: "'a list \<Rightarrow> 'a \<Rightarrow> nat option" where
  "indexOf [] v = None"
| "indexOf (x # xs) v = (if x = v then Some 0 else map_option Suc (indexOf xs v))"

text \<open>\<^verbatim>\<open>xs.splice(idx, 1)\<close>.\<close>

definition splice1 :: "nat \<Rightarrow> 'a list \<Rightarrow> 'a list" where
  "splice1 idx xs = take idx xs @ drop (Suc idx) xs"

text \<open>\<^verbatim>\<open>xs.slice(start, end)\<close>, negative indices counting from the end.\<close>

definition slice :: "int \<Rightarrow> int \<Rightarrow> 'a list \<Rightarrow> 'a list" where
  "slice start end xs =
     (let len = int (length xs);
          k = (if start < 0 then max (len + start) 0 else min start len);
          final = (if end < 0 then max (len + end) 0 else min end len)
      in take (nat (final - k)) (drop (nat k) xs))"

text \<open>
  \<^verbatim>\<open>xs.find(P)\<close> returns a reference to the first element satisfying \<open>P\<close>, and the handlers
  assign to its fields: the collection changes at that element.
\<close>

fun update_first :: "('a \<Rightarrow> bool) \<Rightarrow> ('a \<Rightarrow> 'a) \<Rightarrow> 'a list \<Rightarrow> 'a list" where
  "update_first P f [] = []"
| "update_first P f (x # xs) = (if P x then f x # xs else x # update_first P f xs)"

text \<open>
  Reading property \<open>k\<close> of a value: a \<^verbatim>\<open>TypeError\<close> on \<^verbatim>\<open>null\<close> and \<^verbatim>\<open>undefined\<close>,
  the binding of an object, \<^verbatim>\<open>undefined\<close> otherwise (the handlers read only \<^verbatim>\<open>id\<close> and
  \<^verbatim>\<open>author\<close>, which no array, string, number or boolean has).
\<close>

fun get_prop :: "string \<Rightarrow> jsval \<Rightarrow> js_error + jsval" where
  "get_prop k JUndefined = Inl TypeError"
| "get_prop k JNull = Inl TypeError"
| "get_prop k (JObj kvs) = Inr (case map_of kvs k of None \<Rightarrow> JUndefined | Some v \<Rightarrow> v)"
| "get_prop k v = Inr JUndefined"

section \<open>User repository\<close>

definition has_username :: "string \<Rightarrow> user \<Rightarrow> bool" where
  "has_username name u = (username u = name)"

subsection \<open>Follow and unfollow\<close>

text \<open>
  \<^verbatim>\<open>if (!u.following.includes(name)) u.following.push(name)\<close> and its twin on
  \<^verbatim>\<open>followers\<close>. Calling a method of a value that is not an array raises a
  \<^verbatim>\<open>TypeError\<close>.
\<close>

definition push_following :: "string \<Rightarrow> user \<Rightarrow> js_error + user" where
  "push_following name u =
     (case following u of
        JArr xs \<Rightarrow> Inr (if JStr name \<notin> set xs then u\<lparr>following := JArr (xs @ [JStr name])\<rparr> else u)
      | _ \<Rightarrow> Inl TypeError)"

definition push_followers :: "string \<Rightarrow> user \<Rightarrow> js_error + user" where
  "push_followers name u =
     (case followers u of
        JArr xs \<Rightarrow> Inr (if JStr name \<notin> set xs then u\<lparr>followers := JArr (xs @ [JStr name])\<rparr> else u)
      | _ \<Rightarrow> Inl TypeError)"

definition follow :: "string option \<Rightarrow> string \<Rightarrow> world \<Rightarrow> response \<times> world" where
  "follow session targetName w =
     (case session of
        None \<Rightarrow> (Redirect ''/login'', w)
      | Some meName \<Rightarrow>
          if meName = [] then (Redirect ''/login'', w)
          else if targetName = meName then (Redirect (''/user/'' @ targetName), w)
          else
            (let (users, w1) = normaliseUsers (loadUsers w) w in
             case (find (has_username meName) users, find (has_username targetName) users) of
               (Some me, Some target) \<Rightarrow>
                 (case push_following targetName me of
                    Inl e \<Rightarrow> (Threw e, w1)
                  | Inr me' \<Rightarrow>
                      (case push_followers meName target of
                         Inl e \<Rightarrow> (Threw e, w1)
                       | Inr target' \<Rightarrow>
                           (let users1 = update_first (has_username meName) (\<lambda>u. me') users;
                                users2 = update_first (has_username targetName) (\<lambda>u. target') users1
                            in (Redirect (''/user/'' @ targetName), saveUsers users2 w1))))
             | _ \<Rightarrow> (Redirect ''/'', w1)))"

text \<open>\<^verbatim>\<open>u.following = u.following.filter(n => n !== name)\<close> and its twin.\<close>

definition filter_following :: "string \<Rightarrow> user \<Rightarrow> js_error + user" where
  "filter_following name u =
     (case following u of
        JArr xs \<Rightarrow> Inr (u\<lparr>following := JArr (filter (\<lambda>n. n \<noteq> JStr name) xs)\<rparr>)
      | _ \<Rightarrow> Inl TypeError)"

definition filter_followers :: "string \<Rightarrow> user \<Rightarrow> js_error + user" where
  "filter_followers name u =
     (case followers u of
        JArr xs \<Rightarrow> Inr (u\<lparr>followers := JArr (filter (\<lambda>n. n \<noteq> JStr name) xs)\<rparr>)
      | _ \<Rightarrow> Inl TypeError)"

definition unfollow :: "string option \<Rightarrow> string \<Rightarrow> world \<Rightarrow> response \<times> world" where
  "unfollow session targetName w =
     (case session of
        None \<Rightarrow> (Redirect ''/login'', w)
      | Some meName \<Rightarrow>
          if meName = [] then (Redirect ''/login'', w)
          else if targetName = meName then (Redirect (''/user/'' @ targetName), w)
          else
            (let (users, w1) = normaliseUsers (loadUsers w) w in
             case (find (has_username meName) users, find (has_username targetName) users) of
               (Some me, Some target) \<Rightarrow>
                 (case filter_following targetName me of
                    Inl e \<Rightarrow> (Threw e, w1)
                  | Inr me' \<Rightarrow>
                      (case filter_followers meName target of
                         Inl e \<Rightarrow> (Threw e, w1)
                       | Inr target' \<Rightarrow>
                           (let users1 = update_first (has_username meName) (\<lambda>u. me') users;
                                users2 = update_first (has_username targetName) (\<lambda>u. target') users1
                            in (Redirect (''/user/'' @ targetName), saveUsers users2 w1))))
             | _ \<Rightarrow> (Redirect ''/'', w1)))"

subsection \<open>Register and login\<close>

record register_body =
  rb_username :: "string option"
  rb_email :: "string option"
  rb_password :: "string option"
  rb_password2 :: "string option"

text \<open>The failure of \<^verbatim>\<open>/register\<close> for a user name that is taken: status 400 with its message.\<close>

definition DuplicateUsernameError :: response where
  "DuplicateUsernameError = RenderError 400 ''register'' ''Username already taken.''"

definition register :: "register_body \<Rightarrow> string option \<Rightarrow> world \<Rightarrow> response \<times> string option \<times> world" where
  "register body session w =
     (if falsy (rb_username body) \<or> falsy (rb_password body) \<or> falsy (rb_password2 body)
      then (RenderError 400 ''register'' ''Please fill in all required fields.'', session, w)
      else if rb_password body \<noteq> rb_password2 body
      then (RenderError 400 ''register'' ''Passwords do not match.'', session, w)
      else
        (let name = or_else (rb_username body) [];
             (users, w1) = normaliseUsers (loadUsers w) w
         in case find (has_username name) users of
              Some u \<Rightarrow> (DuplicateUsernameError, session, w1)
            | None \<Rightarrow>
                (let isFirstUser = (length users = 0);
                     (t, w2) = Date_now w1;
                     users' = users @
                       [\<lparr>username = name,
                         email = or_else (rb_email body) [],
                         passwordPlain = or_else (rb_password body) [],
                         joinedAt = JNum t,
                         isAdmin = JBool isFirstUser,
                         banned = JBool False,
                         followers = JArr [],
                         following = JArr []\<rparr>]
                 in (Redirect ''/'', Some name, saveUsers users' w2))))"

text \<open>
  The two failures of \<^verbatim>\<open>/login\<close>: status 401 with the message for a pair of user name and
  password that matches no record, and status 403 with the message for a banned account.
\<close>

definition InvalidCredentialError :: response where
  "InvalidCredentialError = RenderError 401 ''login'' ''Invalid username or password.''"

definition BannedError :: response where
  "BannedError = RenderError 403 ''login'' ''Your account has been banned.''"

definition login :: "string option \<Rightarrow> string option \<Rightarrow> string option \<Rightarrow> world \<Rightarrow> response \<times> string option \<times> world" where
  "login body_username body_password session w =
     (let (users, w1) = normaliseUsers (loadUsers w) w in
      case find (\<lambda>u. Some (username u) = body_username \<and> Some (passwordPlain u) = body_password) users of
        None \<Rightarrow> (InvalidCredentialError, session, w1)
      | Some user \<Rightarrow>
          if truthy (banned user)
          then (BannedError, session, w1)
          else (Redirect ''/'', Some (username user), w1))"

subsection \<open>Administration of users\<close>

text \<open>The middleware \<^verbatim>\<open>requireAdmin\<close>: \<open>Next\<close> lets the request through to its handler.\<close>

definition requireAdmin :: "string option \<Rightarrow> world \<Rightarrow> response \<times> world" where
  "requireAdmin session w =
     (case session of
        None \<Rightarrow> (Redirect ''/login'', w)
      | Some name \<Rightarrow>
          if name = [] then (Redirect ''/login'', w)
          else
            (let (users, w1) = normaliseUsers (loadUsers w) w in
             case find (has_username name) users of
               None \<Rightarrow> (Send 403 ''Admins only.'', w1)
             | Some user \<Rightarrow>
                 if \<not> truthy (isAdmin user) then (Send 403 ''Admins only.'', w1)
                 else (Next, w1)))"

text \<open>A route registered behind \<^verbatim>\<open>requireAdmin\<close>.\<close>

definition admin_route :: "(world \<Rightarrow> response \<times> world) \<Rightarrow> string option \<Rightarrow> world \<Rightarrow> response \<times> world" where
  "admin_route handler session w =
     (case requireAdmin session w of
        (Next, w1) \<Rightarrow> handler w1
      | (r, w1) \<Rightarrow> (r, w1))"

definition set_user_field :: "(user \<Rightarrow> user) \<Rightarrow> string \<Rightarrow> world \<Rightarrow> response \<times> world" where
  "set_user_field f name w =
     (let (users, w1) = normaliseUsers (loadUsers w) w in
      case find (has_username name) users of
        Some user \<Rightarrow> (Redirect ''/admin'', saveUsers (update_first (has_username name) f users) w1)
      | None \<Rightarrow> (Redirect ''/admin'', w1))"

definition admin_ban :: "string option \<Rightarrow> string \<Rightarrow> world \<Rightarrow> response \<times> world" where
  "admin_ban session name = admin_route (set_user_field (\<lambda>u. u\<lparr>banned := JBool True\<rparr>) name) session"

definition admin_unban :: "string option \<Rightarrow> string \<Rightarrow> world \<Rightarrow> response \<times> world" where
  "admin_unban session name = admin_route (set_user_field (\<lambda>u. u\<lparr>banned := JBool False\<rparr>) name) session"

definition admin_make_admin :: "string option \<Rightarrow> string \<Rightarrow> world \<Rightarrow> response \<times> world" where
  "admin_make_admin session name = admin_route (set_user_field (\<lambda>u. u\<lparr>isAdmin := JBool True\<rparr>) name) session"

text \<open>
  The middleware that attaches the current user to the templates: for a request with a
  session it loads and normalises the users before the route's handler runs.
\<close>

definition attach_current_user :: "string option \<Rightarrow> world \<Rightarrow> world" where
  "attach_current_user session w =
     (if falsy session then w else snd (normaliseUsers (loadUsers w) w))"

section \<open>Post repository\<close>

text \<open>
  The answers for a post that is not in the collection (status 404) and for a delete by
  someone who is not the author (status 403).
\<close>

definition NotFoundError :: response where
  "NotFoundError = Send 404 ''Post not found.''"

definition ForbiddenError :: response where
  "ForbiddenError = Send 403 ''You can only delete your own joints.''"

definition has_id :: "int option \<Rightarrow> post \<Rightarrow> bool" where
  "has_id i p = (Some (post_id p) = i)"

subsection \<open>Upload\<close>

text \<open>\<open>file\<close> is the name under which multer stored the image, if the request had one.\<close>

definition upload :: "string option \<Rightarrow> string option \<Rightarrow> string option \<Rightarrow> string option \<Rightarrow> world \<Rightarrow> response \<times> world" where
  "upload session body_title body_caption file w =
     (if falsy session then (Send 401 ''You must be logged in to upload.'', w)
      else
        (case file of
           None \<Rightarrow> (Send 400 ''No image uploaded.'', w)
         | Some filename \<Rightarrow>
             (let (posts, w1) = normalisePosts (loadPosts w) w;
                  (now, w2) = Date_now w1;
                  posts' = posts @
                    [\<lparr>post_id = now,
                      title = or_else body_title ''Untitled Joint'',
                      caption = or_else body_caption [],
                      imageFilename = filename,
                      author = or_else session [],
                      createdAt = now,
                      likes = JNum 0,
                      likedBy = JArr [],
                      comments = JArr []\<rparr>]
              in (Redirect ''/'', savePosts posts' w2))))"

subsection \<open>Like and unlike\<close>

text \<open>\<^verbatim>\<open>post.likes++\<close> and \<^verbatim>\<open>post.likes--; if (post.likes < 0) post.likes = 0\<close>.
  \<^verbatim>\<open>normalisePosts\<close> has made \<^verbatim>\<open>likes\<close> a number before the handler reaches them; on
  another value, which no run meets, the model leaves the field as it is. The arithmetic
  is that of the integers, which is the arithmetic of the JavaScript numbers as long as the
  values stay within \<open>2 ^ 53\<close> in absolute value.\<close>

fun increment :: "jsval \<Rightarrow> jsval" where
  "increment (JNum n) = JNum (n + 1)"
| "increment v = v"

fun decrement_clamped :: "jsval \<Rightarrow> jsval" where
  "decrement_clamped (JNum n) = (let n' = n - 1 in if n' < 0 then JNum 0 else JNum n')"
| "decrement_clamped v = v"

text \<open>The body of the handler once the post is found.\<close>

definition toggle_like :: "string \<Rightarrow> post \<Rightarrow> js_error + post" where
  "toggle_like user p =
     (case likedBy p of
        JArr xs \<Rightarrow>
          (case indexOf xs (JStr user) of
             None \<Rightarrow> Inr (p\<lparr>likedBy := JArr (xs @ [JStr user]), likes := increment (likes p)\<rparr>)
           | Some idx \<Rightarrow>
               Inr (p\<lparr>likedBy := JArr (splice1 idx xs), likes := decrement_clamped (likes p)\<rparr>))
      | _ \<Rightarrow> Inl TypeError)"

definition like :: "string option \<Rightarrow> string \<Rightarrow> world \<Rightarrow> response \<times> world" where
  "like session params_id w =
     (case session of
        None \<Rightarrow> (Redirect ''/login'', w)
      | Some user \<Rightarrow>
          if user = [] then (Redirect ''/login'', w)
          else
            (let i = parseInt10 params_id;
                 (posts, w1) = normalisePosts (loadPosts w) w
             in case find (has_id i) posts of
                  None \<Rightarrow> (NotFoundError, w1)
                | Some p \<Rightarrow>
                    (case toggle_like user p of
                       Inl e \<Rightarrow> (Threw e, w1)
                     | Inr p' \<Rightarrow>
                         (Redirect ''/'', savePosts (update_first (has_id i) (\<lambda>q. p') posts) w1))))"

subsection \<open>Delete\<close>

definition delete_post :: "string option \<Rightarrow> string \<Rightarrow> world \<Rightarrow> response \<times> world" where
  "delete_post session params_id w =
     (case session of
        None \<Rightarrow> (Redirect ''/login'', w)
      | Some user \<Rightarrow>
          if user = [] then (Redirect ''/login'', w)
          else
            (let i = parseInt10 params_id;
                 (posts, w1) = normalisePosts (loadPosts w) w
             in case find (has_id i) posts of
                  None \<Rightarrow> (NotFoundError, w1)
                | Some p \<Rightarrow>
                    if author p \<noteq> user
                    then (ForbiddenError, w1)
                    else (Redirect ''/'', savePosts (filter (\<lambda>q. \<not> has_id i q) posts) w1)))"

definition admin_delete_handler :: "string \<Rightarrow> world \<Rightarrow> response \<times> world" where
  "admin_delete_handler params_id w =
     (let i = parseInt10 params_id;
          (posts, w1) = normalisePosts (loadPosts w) w
      in (Redirect ''/admin'', savePosts (filter (\<lambda>q. \<not> has_id i q) posts) w1))"

definition admin_delete_post :: "string option \<Rightarrow> string \<Rightarrow> world \<Rightarrow> response \<times> world" where
  "admin_delete_post session params_id = admin_route (admin_delete_handler params_id) session"

subsection \<open>Comments\<close>

definition push_comment :: "jsval \<Rightarrow> post \<Rightarrow> js_error + post" where
  "push_comment c p =
     (case comments p of
        JArr cs \<Rightarrow> Inr (p\<lparr>comments := JArr (cs @ [c])\<rparr>)
      | _ \<Rightarrow> Inl TypeError)"

definition add_comment :: "string option \<Rightarrow> string \<Rightarrow> string option \<Rightarrow> world \<Rightarrow> response \<times> world" where
  "add_comment session params_id body_comment w =
     (case session of
        None \<Rightarrow> (Redirect ''/login'', w)
      | Some user \<Rightarrow>
          if user = [] then (Redirect ''/login'', w)
          else
            (let i = parseInt10 params_id;
                 text = trim (or_else body_comment [])
             in if text = [] then (Redirect ''/'', w)
                else
                  (let (posts, w1) = normalisePosts (loadPosts w) w
                   in case find (has_id i) posts of
                        None \<Rightarrow> (NotFoundError, w1)
                      | Some p \<Rightarrow>
                          (let (now, w2) = Date_now w1;
                               c = JObj [(''id'', JNum now), (''author'', JStr user),
                                         (''text'', JStr text), (''createdAt'', JNum now)]
                           in case push_comment c p of
                                Inl e \<Rightarrow> (Threw e, w2)
                              | Inr p' \<Rightarrow>
                                  (Redirect ''/'',
                                   savePosts (update_first (has_id i) (\<lambda>q. p') posts) w2)))))"

text \<open>\<^verbatim>\<open>cs.findIndex(c => c.id === commentId)\<close>; reading \<^verbatim>\<open>c.id\<close> can raise.\<close>

fun findIndex_comment :: "int option \<Rightarrow> jsval list \<Rightarrow> js_error + nat option" where
  "findIndex_comment commentId [] = Inr None"
| "findIndex_comment commentId (c # cs) =
     (case get_prop ''id'' c of
        Inl e \<Rightarrow> Inl e
      | Inr v \<Rightarrow>
          if Some v = map_option JNum commentId then Inr (Some 0)
          else (case findIndex_comment commentId cs of
                  Inl e \<Rightarrow> Inl e
                | Inr r \<Rightarrow> Inr (map_option Suc r)))"

datatype comment_verdict = NoComment | Forbidden | Removed post

definition remove_comment :: "string \<Rightarrow> int option \<Rightarrow> post \<Rightarrow> js_error + comment_verdict" where
  "remove_comment user commentId p =
     (case comments p of
        JArr cs \<Rightarrow>
          (case findIndex_comment commentId cs of
             Inl e \<Rightarrow> Inl e
           | Inr None \<Rightarrow> Inr NoComment
           | Inr (Some idx) \<Rightarrow>
               (case get_prop ''author'' (cs ! idx) of
                  Inl e \<Rightarrow> Inl e
                | Inr a \<Rightarrow>
                    if a \<noteq> JStr user \<and> author p \<noteq> user then Inr Forbidden
                    else Inr (Removed (p\<lparr>comments := JArr (splice1 idx cs)\<rparr>))))
      | _ \<Rightarrow> Inl TypeError)"

definition delete_comment :: "string option \<Rightarrow> string \<Rightarrow> string \<Rightarrow> world \<Rightarrow> response \<times> world" where
  "delete_comment session params_postId params_commentId w =
     (case session of
        None \<Rightarrow> (Redirect ''/login'', w)
      | Some user \<Rightarrow>
          if user = [] then (Redirect ''/login'', w)
          else
            (let postId = parseInt10 params_postId;
                 commentId = parseInt10 params_commentId;
                 (posts, w1) = normalisePosts (loadPosts w) w
             in case find (has_id postId) posts of
                  None \<Rightarrow> (NotFoundError, w1)
                | Some p \<Rightarrow>
                    (case remove_comment user commentId p of
                       Inl e \<Rightarrow> (Threw e, w1)
                     | Inr NoComment \<Rightarrow> (Send 404 ''Comment not found.'', w1)
                     | Inr Forbidden \<Rightarrow> (Send 403 ''You cannot delete this comment.'', w1)
                     | Inr (Removed p') \<Rightarrow>
                         (Redirect ''/'',
                          savePosts (update_first (has_id postId) (\<lambda>q. p') posts) w1))))"

subsection \<open>Feeds and pagination\<close>

definition POSTS_PER_PAGE :: int where
  "POSTS_PER_PAGE = 5"

text \<open>
  The page of a request: \<^verbatim>\<open>parseInt(req.query.page || '1', 10)\<close>, replaced by 1 when it is
  \<^verbatim>\<open>NaN\<close> or below 1.
\<close>

definition requested_page :: "string option \<Rightarrow> int" where
  "requested_page query_page =
     (case parseInt10 (or_else query_page ''1'') of
        None \<Rightarrow> 1
      | Some page \<Rightarrow> if page < 1 then 1 else page)"

text \<open>
  The computation that \<^verbatim>\<open>/\<close> and \<^verbatim>\<open>/top\<close> both perform on the sorted posts, for a page
  size \<open>pageSize\<close>: the page's posts, the page number and the number of pages.
\<close>

definition paginate :: "int \<Rightarrow> post list \<Rightarrow> int \<Rightarrow> post list \<times> int \<times> int" where
  "paginate pageSize posts page0 =
     (let totalPages = max 1 (\<lceil>real (length posts) / real_of_int pageSize\<rceil>);
          page = (if page0 > totalPages then totalPages else page0);
          start = (page - 1) * pageSize;
          pagePosts = slice start (start + pageSize) posts
      in (pagePosts, page, totalPages))"

text \<open>\<^verbatim>\<open>a.likes || 0\<close> on the number that \<^verbatim>\<open>normalisePosts\<close> leaves in \<^verbatim>\<open>likes\<close>.\<close>

fun likes_or_0 :: "jsval \<Rightarrow> int" where
  "likes_or_0 (JNum n) = n"
| "likes_or_0 v = 0"

text \<open>
  \<^verbatim>\<open>Array.prototype.sort\<close> is stable, as is \<open>sort_key\<close>; the comparators order by
  descending \<^verbatim>\<open>createdAt\<close>, and by descending \<^verbatim>\<open>likes\<close> then descending \<^verbatim>\<open>createdAt\<close>.
\<close>

definition get_index :: "string option \<Rightarrow> world \<Rightarrow> response \<times> world" where
  "get_index query_page w =
     (let page0 = requested_page query_page;
          (posts, w1) = normalisePosts (loadPosts w) w;
          sorted = sort_key (\<lambda>p. - createdAt p) posts;
          (pagePosts, page, totalPages) = paginate POSTS_PER_PAGE sorted page0
      in (RenderPage ''index'' pagePosts page totalPages, w1))"

definition get_top :: "string option \<Rightarrow> world \<Rightarrow> response \<times> world" where
  "get_top query_page w =
     (let page0 = requested_page query_page;
          (posts, w1) = normalisePosts (loadPosts w) w;
          sorted = sort_key (\<lambda>p. (- likes_or_0 (likes p), - createdAt p)) posts;
          (pagePosts, page, totalPages) = paginate POSTS_PER_PAGE sorted page0
      in (RenderPage ''top'' pagePosts page totalPages, w1))"

section \<open>The files and the start of the server\<close>

text \<open>
  The part of the file system that server.js touches, one level below the store above:
  a file holds text, and \<^verbatim>\<open>JSON.parse\<close> is a parameter of the load functions.
\<close>

datatype path = AppDir | DATA_DIR | PublicDir | UPLOAD_DIR | USERS_FILE | POSTS_FILE

fun parent :: "path \<Rightarrow> path" where
  "parent DATA_DIR = AppDir"
| "parent PublicDir = AppDir"
| "parent UPLOAD_DIR = PublicDir"
| "parent USERS_FILE = DATA_DIR"
| "parent POSTS_FILE = DATA_DIR"
| "parent AppDir = AppDir"

datatype node = Dir | File string

type_synonym filesys = "path \<Rightarrow> node option"

definition existsSync :: "path \<Rightarrow> filesys \<Rightarrow> bool" where
  "existsSync p fs = (fs p \<noteq> None)"

definition mkdirSync :: "path \<Rightarrow> filesys \<Rightarrow> js_error + filesys" where
  "mkdirSync p fs =
     (if fs p \<noteq> None then Inl EEXIST
      else if fs (parent p) \<noteq> Some Dir then Inl ENOENT
      else Inr (fs(p \<mapsto> Dir)))"

definition writeFileSync :: "path \<Rightarrow> string \<Rightarrow> filesys \<Rightarrow> js_error + filesys" where
  "writeFileSync p s fs =
     (if fs p = Some Dir then Inl EISDIR
      else if fs (parent p) \<noteq> Some Dir then Inl ENOENT
      else Inr (fs(p \<mapsto> File s)))"

definition readFileSync :: "path \<Rightarrow> filesys \<Rightarrow> js_error + string" where
  "readFileSync p fs =
     (case fs p of
        None \<Rightarrow> Inl ENOENT
      | Some Dir \<Rightarrow> Inl EISDIR
      | Some (File s) \<Rightarrow> Inr s)"

text \<open>Sequencing of steps that can raise.\<close>

definition and_then :: "js_error + 'a \<Rightarrow> ('a \<Rightarrow> js_error + 'b) \<Rightarrow> js_error + 'b" where
  "and_then r f = (case r of Inl e \<Rightarrow> Inl e | Inr x \<Rightarrow> f x)"

text \<open>Lines 17 to 20: the four statements run when the module is loaded.\<close>

definition ensure_dir :: "path \<Rightarrow> filesys \<Rightarrow> js_error + filesys" where
  "ensure_dir p fs = (if \<not> existsSync p fs then mkdirSync p fs else Inr fs)"

definition ensure_file :: "path \<Rightarrow> filesys \<Rightarrow> js_error + filesys" where
  "ensure_file p fs = (if \<not> existsSync p fs then writeFileSync p ''[]'' fs else Inr fs)"

definition startup :: "filesys \<Rightarrow> js_error + filesys" where
  "startup fs =
     and_then (ensure_dir DATA_DIR fs) (\<lambda>fs1.
     and_then (ensure_dir UPLOAD_DIR fs1) (\<lambda>fs2.
     and_then (ensure_file USERS_FILE fs2) (\<lambda>fs3.
     ensure_file POSTS_FILE fs3)))"

text \<open>\<^verbatim>\<open>JSON.parse(fs.readFileSync(FILE, 'utf8') || '[]')\<close>.\<close>

definition load_file :: "(string \<Rightarrow> js_error + 'a list) \<Rightarrow> path \<Rightarrow> filesys \<Rightarrow> js_error + 'a list" where
  "load_file parse p fs =
     and_then (readFileSync p fs) (\<lambda>s. parse (if s = [] then ''[]'' else s))"

definition loadUsers_file :: "(string \<Rightarrow> js_error + 'a list) \<Rightarrow> filesys \<Rightarrow> js_error + 'a list" where
  "loadUsers_file parse fs = load_file parse USERS_FILE fs"

definition loadPosts_file :: "(string \<Rightarrow> js_error + 'a list) \<Rightarrow> filesys \<Rightarrow> js_error + 'a list" where
  "loadPosts_file parse fs = load_file parse POSTS_FILE fs"

section \<open>Sequences of requests\<close>

text \<open>
  The requests that change the users, with the session of the request, and the store
  after handling one and after handling a sequence of them.
\<close>

datatype user_request =
    Register register_body
  | Login "string option" "string option"
  | Follow "string option" string
  | Unfollow "string option" string
  | Ban "string option" string
  | Unban "string option" string
  | MakeAdmin "string option" string
  | Visit "string option"

fun user_step :: "world \<Rightarrow> user_request \<Rightarrow> world" where
  "user_step w (Register body) = snd (snd (register body None w))"
| "user_step w (Login name password) = snd (snd (login name password None w))"
| "user_step w (Follow session target) = snd (follow session target w)"
| "user_step w (Unfollow session target) = snd (unfollow session target w)"
| "user_step w (Ban session name) = snd (admin_ban session name w)"
| "user_step w (Unban session name) = snd (admin_unban session name w)"
| "user_step w (MakeAdmin session name) = snd (admin_make_admin session name w)"
| "user_step w (Visit session) = attach_current_user session w"

definition run_user_requests :: "user_request list \<Rightarrow> world \<Rightarrow> world" where
  "run_user_requests rs w = foldl user_step w rs"

text \<open>The requests that read or change the posts.\<close>

datatype post_request =
    Upload "string option" "string option" "string option" "string option"
  | Like "string option" string
  | AddComment "string option" string "string option"
  | DeleteComment "string option" string string
  | DeletePost "string option" string
  | AdminDeletePost "string option" string
  | Feed "string option"
  | Top "string option"

fun post_step :: "world \<Rightarrow> post_request \<Rightarrow> world" where
  "post_step w (Upload session t c file) = snd (upload session t c file w)"
| "post_step w (Like session i) = snd (like session i w)"
| "post_step w (AddComment session i c) = snd (add_comment session i c w)"
| "post_step w (DeleteComment session i c) = snd (delete_comment session i c w)"
| "post_step w (DeletePost session i) = snd (delete_post session i w)"
| "post_step w (AdminDeletePost session i) = snd (admin_delete_post session i w)"
| "post_step w (Feed page) = snd (get_index page w)"
| "post_step w (Top page) = snd (get_top page w)"

definition run_post_requests :: "post_request list \<Rightarrow> world \<Rightarrow> world" where
  "run_post_requests rs w = foldl post_step w rs"

text \<open>The store that the first start of the server leaves, with a clock that ticks.\<close>

definition fresh_world :: world where
  "fresh_world =
     \<lparr>users_json = [], posts_json = [], users_writes = 0, posts_writes = 0,
      clock = (\<lambda>k. 1700000000000 + int k), clock_reads = 0\<rparr>"

section \<open>Invariants of the data model\<close>

text \<open>
  A post whose \<^verbatim>\<open>likedBy\<close> is an array without duplicates and whose \<^verbatim>\<open>likes\<close> is its length.
\<close>

definition likes_consistent :: "post \<Rightarrow> bool" where
  "likes_consistent p =
     (isArray (likedBy p) \<and> distinct (elems (likedBy p)) \<and>
      likes p = JNum (int (length (elems (likedBy p)))))"

text \<open>Membership of a user name in a \<^verbatim>\<open>followers\<close> or \<^verbatim>\<open>following\<close> field.\<close>

definition listed :: "string \<Rightarrow> jsval \<Rightarrow> bool" where
  "listed name v = (JStr name \<in> set (elems v))"

definition names_of :: "jsval \<Rightarrow> string list" where
  "names_of v = concat (map (\<lambda>x. case x of JStr s \<Rightarrow> [s] | _ \<Rightarrow> []) (elems v))"

text \<open>
  The follow relation of a collection is consistent when user names are unique, every
  name listed in a \<^verbatim>\<open>followers\<close> or \<^verbatim>\<open>following\<close> field is the name of a user of the
  collection, and a user \<open>a\<close> is listed in the followers of \<open>b\<close> exactly when \<open>b\<close> is listed in
  the following of \<open>a\<close>.
\<close>

definition follow_consistent :: "user list \<Rightarrow> bool" where
  "follow_consistent users =
     (distinct (map username users) \<and>
      (\<forall>u \<in> set users. set (names_of (followers u)) \<subseteq> set (map username users) \<and>
                        set (names_of (following u)) \<subseteq> set (map username users)) \<and>
      (\<forall>a \<in> set users. \<forall>b \<in> set users.
         listed (username a) (followers b) = listed (username b) (following a)))"

section \<open>Example documents\<close>

text \<open>A post written before \<^verbatim>\<open>likedBy\<close> and \<^verbatim>\<open>comments\<close> existed: it has a like counter only.\<close>

definition legacy_post :: post where
  "legacy_post =
     \<lparr>post_id = 1600000000000, title = ''First joint'', caption = [],
      imageFilename = ''1600000000000-1.png'', author = ''alice'', createdAt = 1600000000000,
      likes = JNum 5, likedBy = JUndefined, comments = JUndefined\<rparr>"

definition legacy_world :: world where
  "legacy_world = fresh_world\<lparr>posts_json := [legacy_post]\<rparr>"

text \<open>A user record without the fields that later versions added, and a complete one.\<close>

definition legacy_user :: user where
  "legacy_user =
     \<lparr>username = ''carol'', email = [], passwordPlain = ''pw3'',
      joinedAt = JUndefined, isAdmin = JUndefined, banned = JUndefined,
      followers = JUndefined, following = JUndefined\<rparr>"

definition alice :: user where
  "alice =
     \<lparr>username = ''alice'', email = ''a@example.org'', passwordPlain = ''pw1'',
      joinedAt = JNum 1600000000000, isAdmin = JBool True, banned = JBool False,
      followers = JArr [], following = JArr []\<rparr>"

definition bob :: user where
  "bob =
     \<lparr>username = ''bob'', email = [], passwordPlain = ''pw2'',
      joinedAt = JNum 1600000000500, isAdmin = JBool False, banned = JBool True,
      followers = JArr [], following = JArr []\<rparr>"

definition clean_post :: post where
  "clean_post =
     \<lparr>post_id = 1600000000777, title = ''Second joint'', caption = ''hello'',
      imageFilename = ''1600000000777-2.png'', author = ''bob'', createdAt = 1600000000777,
      likes = JNum 1, likedBy = JArr [JStr ''alice''], comments = JArr []\<rparr>"

text \<open>
  A checkout of the repository before its first start: the application directory and
  \<^verbatim>\<open>public\<close> exist, \<^verbatim>\<open>data\<close> does not. And a stand-in for \<^verbatim>\<open>JSON.parse\<close> that reads the
  one text the start of the server writes.
\<close>

definition bare_fs :: filesys where
  "bare_fs = (\<lambda>p. if p = AppDir \<or> p = PublicDir then Some Dir else None)"

definition parse_empty_array :: "string \<Rightarrow> js_error + jsval list" where
  "parse_empty_array s = (if s = ''[]'' then Inr [] else Inl SyntaxError)"

text \<open>A store with two users, the second of them banned; and two registration forms.\<close>

definition two_users_world :: world where
  "two_users_world = fresh_world\<lparr>users_json := [alice, bob]\<rparr>"

definition alice_form :: register_body where
  "alice_form =
     \<lparr>rb_username = Some ''alice'', rb_email = Some ''a@example.org'',
      rb_password = Some ''pw1'', rb_password2 = Some ''pw1''\<rparr>"

definition bob_form :: register_body where
  "bob_form =
     \<lparr>rb_username = Some ''bob'', rb_email = None,
      rb_password = Some ''pw2'', rb_password2 = Some ''pw2''\<rparr>"

definition carol_form :: register_body where
  "carol_form =
     \<lparr>rb_username = Some ''carol'', rb_email = Some ''c@example.org'',
      rb_password = Some ''pw3'', rb_password2 = Some ''pw3''\<rparr>"

text \<open>
  A collection in which two posts carry the same id, as two uploads within one
  millisecond produce, followed by a post with another id.
\<close>

definition twin_a :: post where
  "twin_a =
     \<lparr>post_id = 1700000000123, title = ''Twin A'', caption = [],
      imageFilename = ''1700000000123-4.png'', author = ''alice'', createdAt = 1700000000123,
      likes = JNum 0, likedBy = JArr [], comments = JArr []\<rparr>"

definition twin_b :: post where
  "twin_b =
     \<lparr>post_id = 1700000000123, title = ''Twin B'', caption = [],
      imageFilename = ''1700000000123-9.png'', author = ''bob'', createdAt = 1700000000123,
      likes = JNum 0, likedBy = JArr [], comments = JArr []\<rparr>"

definition twins_world :: world where
  "twins_world = fresh_world\<lparr>users_json := [alice, bob], posts_json := [twin_a, twin_b, clean_post]\<rparr>"

text \<open>An upload by alice followed by three likes of the new post.\<close>

definition example_post_requests :: "post_request list" where
  "example_post_requests =
     [Upload (Some ''alice'') (Some ''Sunset'') None (Some ''1700000000000-7.png''),
      Like (Some ''bob'') ''1700000000000'',
      Like (Some ''alice'') ''1700000000000'',
      Like (Some ''bob'') ''1700000000000'']"

text \<open>
  The follow relation as the \<^verbatim>\<open>followers\<close> fields record it, the pairs \<open>(a, b)\<close> with \<open>a\<close>
  listed among the followers of \<open>b\<close>, and as the \<^verbatim>\<open>following\<close> fields record it, the pairs
  \<open>(a, b)\<close> with \<open>b\<close> listed in the following of \<open>a\<close>.
\<close>

definition followers_rel :: "user list \<Rightarrow> (string \<times> string) set" where
  "followers_rel users =
     set (concat (map (\<lambda>u. map (\<lambda>a. (a, username u)) (names_of (followers u))) users))"

definition following_rel :: "user list \<Rightarrow> (string \<times> string) set" where
  "following_rel users =
     set (concat (map (\<lambda>u. map (\<lambda>b. (username u, b)) (names_of (following u))) users))"

text \<open>Two registrations, a follow in each direction, an unfollow, a ban and a login.\<close>

definition example_user_requests :: "user_request list" where
  "example_user_requests =
     [Register alice_form, Register bob_form,
      Follow (Some ''alice'') ''bob'', Follow (Some ''bob'') ''alice'',
      Unfollow (Some ''bob'') ''alice'', Ban (Some ''alice'') ''bob'',
      Login (Some ''bob'') (Some ''pw2'')]"

text \<open>
  Records that lack fields, as the normalisers expect to meet them: ann lists ben among
  her followers and has no \<^verbatim>\<open>following\<close>, ben has neither field; and a post that has a
  member of \<^verbatim>\<open>likedBy\<close> but no \<^verbatim>\<open>likes\<close>.
\<close>

definition ann :: user where
  "ann =
     \<lparr>username = ''ann'', email = [], passwordPlain = ''pw4'',
      joinedAt = JNum 1600000001000, isAdmin = JBool False, banned = JBool False,
      followers = JArr [JStr ''ben''], following = JUndefined\<rparr>"

definition ben :: user where
  "ben =
     \<lparr>username = ''ben'', email = [], passwordPlain = ''pw5'',
      joinedAt = JNum 1600000002000, isAdmin = JBool False, banned = JBool False,
      followers = JUndefined, following = JUndefined\<rparr>"

definition lopsided_world :: world where
  "lopsided_world = fresh_world\<lparr>users_json := [ann, ben]\<rparr>"



definition legacy_users_world :: world where
  "legacy_users_world = fresh_world\<lparr>users_json := [legacy_user]\<rparr>"

section \<open>Properties of normalisation\<close>

lemma normalise_user_flag:
  "fst (snd (normalise_user u c w)) = (c \<or> \<not> user_normalised u)"
  by (auto simp: normalise_user_def user_normalised_def Date_now_def Let_def)

lemma normalise_user_fixed:
  "user_normalised u \<Longrightarrow> normalise_user u c w = (u, c, w)"
  by (simp add: normalise_user_def user_normalised_def)

lemma normalise_user_world:
  "\<exists>n. snd (snd (normalise_user u c w)) = w\<lparr>clock_reads := n\<rparr> \<and> clock_reads w \<le> n"
proof (cases "truthy (joinedAt u)")
  case True
  then have "snd (snd (normalise_user u c w)) = w\<lparr>clock_reads := clock_reads w\<rparr>"
    by (simp add: normalise_user_def Let_def)
  then show ?thesis by blast
next
  case False
  then have "snd (snd (normalise_user u c w)) = w\<lparr>clock_reads := Suc (clock_reads w)\<rparr>"
    by (simp add: normalise_user_def Let_def Date_now_def)
  then show ?thesis by (metis le_SucI order_refl)
qed

lemma normalise_user_shape:
  "is_boolean (isAdmin (fst (normalise_user u c w)))"
  "is_boolean (banned (fst (normalise_user u c w)))"
  "isArray (followers (fst (normalise_user u c w)))"
  "isArray (following (fst (normalise_user u c w)))"
  by (simp_all add: normalise_user_def Let_def Date_now_def)

lemma normalise_user_keeps:
  "username (fst (normalise_user u c w)) = username u"
  "passwordPlain (fst (normalise_user u c w)) = passwordPlain u"
  "elems (followers (fst (normalise_user u c w))) = elems (followers u)"
  "elems (following (fst (normalise_user u c w))) = elems (following u)"
  by (auto simp add: normalise_user_def Let_def Date_now_def elim: isArray.elims)

lemma normalise_user_banned:
  "truthy (banned (fst (normalise_user u c w))) = (banned u = JBool True)"
  by (cases "banned u") (auto simp add: normalise_user_def Let_def Date_now_def)

lemma normalise_user_joined:
  "truthy (joinedAt u) \<or> clock w (clock_reads w) \<noteq> 0 \<Longrightarrow> truthy (joinedAt (fst (normalise_user u c w)))"
  by (auto simp add: normalise_user_def Let_def Date_now_def)

lemma forEach_users_flag:
  "fst (snd (forEach_users us c w)) = (c \<or> (\<exists>u \<in> set us. \<not> user_normalised u))"
proof (induction us arbitrary: c w)
  case Nil
  show ?case by simp
next
  case (Cons u us)
  obtain u' c1 w1 where step: "normalise_user u c w = (u', c1, w1)"
    by (metis prod_cases3)
  then have c1: "c1 = (c \<or> \<not> user_normalised u)"
    using normalise_user_flag [of u c w] by simp
  obtain us' c2 w2 where rest: "forEach_users us c1 w1 = (us', c2, w2)"
    by (metis prod_cases3)
  then have "c2 = (c1 \<or> (\<exists>u \<in> set us. \<not> user_normalised u))"
    using Cons.IH [of c1 w1] by simp
  with step rest c1 show ?case by auto
qed

lemma forEach_users_fixed:
  "\<forall>u \<in> set us. user_normalised u \<Longrightarrow> forEach_users us c w = (us, c, w)"
  by (induction us) (simp_all add: normalise_user_fixed)

lemma forEach_users_world:
  "\<exists>n. snd (snd (forEach_users us c w)) = w\<lparr>clock_reads := n\<rparr> \<and> clock_reads w \<le> n"
proof (induction us arbitrary: c w)
  case Nil
  have "w = w\<lparr>clock_reads := clock_reads w\<rparr>" by simp
  then show ?case by (metis forEach_users.simps(1) order_refl snd_conv)
next
  case (Cons u us)
  obtain u' c1 w1 where step: "normalise_user u c w = (u', c1, w1)"
    by (metis prod_cases3)
  obtain n where n: "w1 = w\<lparr>clock_reads := n\<rparr>" "clock_reads w \<le> n"
    using normalise_user_world [of u c w] step by auto
  obtain us' c2 w2 where rest: "forEach_users us c1 w1 = (us', c2, w2)"
    by (metis prod_cases3)
  obtain m where m: "w2 = w1\<lparr>clock_reads := m\<rparr>" "clock_reads w1 \<le> m"
    using Cons.IH [of c1 w1] rest by auto
  have "w2 = w\<lparr>clock_reads := m\<rparr>" "clock_reads w \<le> m"
    using n m by simp_all
  moreover have "snd (snd (forEach_users (u # us) c w)) = w2"
    using step rest by simp
  ultimately show ?case by blast
qed

lemma forEach_users_rel:
  "list_all2 (\<lambda>u u'. \<exists>c w. u' = fst (normalise_user u c w)) us (fst (forEach_users us c w))"
proof (induction us arbitrary: c w)
  case Nil
  show ?case by simp
next
  case (Cons u us)
  obtain u' c1 w1 where step: "normalise_user u c w = (u', c1, w1)"
    by (metis prod_cases3)
  obtain us' c2 w2 where rest: "forEach_users us c1 w1 = (us', c2, w2)"
    by (metis prod_cases3)
  have "list_all2 (\<lambda>u u'. \<exists>c w. u' = fst (normalise_user u c w)) us us'"
    using Cons.IH [of c1 w1] rest by simp
  moreover have "\<exists>c w. u' = fst (normalise_user u c w)"
    using step by (metis fst_conv)
  ultimately show ?case using step rest by simp
qed

lemma forEach_users_joined:
  "\<forall>k. clock w k \<noteq> 0 \<Longrightarrow> \<forall>u \<in> set (fst (forEach_users us c w)). truthy (joinedAt u)"
proof (induction us arbitrary: c w)
  case Nil
  show ?case by simp
next
  case (Cons u us)
  obtain u' c1 w1 where step: "normalise_user u c w = (u', c1, w1)"
    by (metis prod_cases3)
  obtain n where n: "w1 = w\<lparr>clock_reads := n\<rparr>"
    using normalise_user_world [of u c w] step by auto
  obtain us' c2 w2 where rest: "forEach_users us c1 w1 = (us', c2, w2)"
    by (metis prod_cases3)
  have "\<forall>k. clock w1 k \<noteq> 0" using Cons.prems n by simp
  then have "\<forall>u \<in> set us'. truthy (joinedAt u)"
    using Cons.IH [of w1 c1] rest by simp
  moreover have "truthy (joinedAt u')"
    using normalise_user_joined [of u w c] Cons.prems step by simp
  ultimately show ?case using step rest by simp
qed

lemma normaliseUsers_fst: "fst (normaliseUsers us w) = fst (forEach_users us False w)"
  by (simp add: normaliseUsers_def split: prod.splits)

lemma normaliseUsers_rel:
  "list_all2 (\<lambda>u u'. \<exists>c w. u' = fst (normalise_user u c w)) us (fst (normaliseUsers us w))"
  by (simp add: normaliseUsers_fst forEach_users_rel)

lemma normaliseUsers_normalised:
  assumes "\<forall>k. clock w k \<noteq> 0"
  shows "\<forall>u \<in> set (fst (normaliseUsers us w)). user_normalised u"
proof
  fix u' assume u': "u' \<in> set (fst (normaliseUsers us w))"
  then obtain u c v where "u' = fst (normalise_user u c v)"
    using normaliseUsers_rel [of us w] by (auto simp: list_all2_conv_all_nth in_set_conv_nth)
  moreover have "truthy (joinedAt u')"
    using forEach_users_joined [OF assms] u' by (simp add: normaliseUsers_fst)
  ultimately show "user_normalised u'"
    by (simp add: user_normalised_def normalise_user_shape)
qed

lemma normaliseUsers_fixed:
  "\<forall>u \<in> set us. user_normalised u \<Longrightarrow> normaliseUsers us w = (us, w)"
  by (simp add: normaliseUsers_def forEach_users_fixed)

lemma normaliseUsers_amended:
  assumes "\<exists>u \<in> set us. \<not> user_normalised u"
  shows "\<exists>n. snd (normaliseUsers us w) =
           w\<lparr>clock_reads := n, users_json := fst (normaliseUsers us w),
             users_writes := Suc (users_writes w)\<rparr>"
proof -
  obtain us' c w' where run: "forEach_users us False w = (us', c, w')"
    by (metis prod_cases3)
  have "c" using forEach_users_flag [of us False w] run assms by simp
  obtain n where "w' = w\<lparr>clock_reads := n\<rparr>"
    using forEach_users_world [of us False w] run by auto
  with run \<open>c\<close> show ?thesis
    by (auto simp: normaliseUsers_def saveUsers_def)
qed

lemma normalise_post_fixed: "post_normalised p \<Longrightarrow> normalise_post p = p"
  by (simp add: normalise_post_def post_normalised_def)

lemma normalise_post_normalised: "post_normalised (normalise_post p)"
  by (simp add: normalise_post_def post_normalised_def Let_def)

lemma normalise_post_changes: "\<not> post_normalised p \<Longrightarrow> normalise_post p \<noteq> p"
  by (metis normalise_post_normalised)

text \<open>
  C3, as the code has it. \<^verbatim>\<open>normaliseUsers\<close> writes users.json exactly when a record lacks
  the canonical shape (then the file holds the amended collection and has been written
  once), and leaves the store alone otherwise; an amended collection is therefore always
  persisted. \<^verbatim>\<open>normalisePosts\<close> never writes: it returns the store as it found it, whether
  or not it amended a post.
\<close>

theorem normalise_persist:
  "((\<exists>u \<in> set us. \<not> user_normalised u) \<longrightarrow>
      (\<exists>n. snd (normaliseUsers us w) =
         w\<lparr>clock_reads := n, users_json := fst (normaliseUsers us w),
           users_writes := Suc (users_writes w)\<rparr>)) \<and>
   ((\<forall>u \<in> set us. user_normalised u) \<longrightarrow> normaliseUsers us w = (us, w)) \<and>
   (fst (normaliseUsers us w) \<noteq> us \<longrightarrow>
      users_writes (snd (normaliseUsers us w)) = Suc (users_writes w) \<and>
      users_json (snd (normaliseUsers us w)) = fst (normaliseUsers us w)) \<and>
   snd (normalisePosts ps w) = w"
proof -
  have amended: "(\<exists>u \<in> set us. \<not> user_normalised u) \<longrightarrow>
      (\<exists>n. snd (normaliseUsers us w) =
         w\<lparr>clock_reads := n, users_json := fst (normaliseUsers us w),
           users_writes := Suc (users_writes w)\<rparr>)"
    using normaliseUsers_amended by blast
  have fixed: "(\<forall>u \<in> set us. user_normalised u) \<longrightarrow> normaliseUsers us w = (us, w)"
    using normaliseUsers_fixed by blast
  have changed: "fst (normaliseUsers us w) \<noteq> us \<longrightarrow>
      users_writes (snd (normaliseUsers us w)) = Suc (users_writes w) \<and>
      users_json (snd (normaliseUsers us w)) = fst (normaliseUsers us w)"
  proof
    assume "fst (normaliseUsers us w) \<noteq> us"
    then have "\<exists>u \<in> set us. \<not> user_normalised u"
      using fixed by auto
    then obtain n where "snd (normaliseUsers us w) =
         w\<lparr>clock_reads := n, users_json := fst (normaliseUsers us w),
           users_writes := Suc (users_writes w)\<rparr>"
      using amended by blast
    then show "users_writes (snd (normaliseUsers us w)) = Suc (users_writes w) \<and>
      users_json (snd (normaliseUsers us w)) = fst (normaliseUsers us w)"
      by simp
  qed
  have posts: "snd (normalisePosts ps w) = w"
    by (simp add: normalisePosts_def)
  from amended fixed changed posts show ?thesis by blast
qed

theorem normalise_persist_witness:
  "users_writes (snd (normaliseUsers [legacy_user] fresh_world)) = 1 \<and>
   users_json (snd (normaliseUsers [legacy_user] fresh_world)) =
     fst (normaliseUsers [legacy_user] fresh_world) \<and>
   fst (normaliseUsers [legacy_user] fresh_world) \<noteq> [legacy_user] \<and>
   normaliseUsers [alice] fresh_world = ([alice], fresh_world) \<and>
   snd (normalisePosts [legacy_post] fresh_world) = fresh_world"
proof -
  have changes: "fst (normaliseUsers [legacy_user] fresh_world) \<noteq> [legacy_user]"
    by (simp add: normaliseUsers_def normalise_user_def legacy_user_def Date_now_def)
  have shaped: "\<forall>u \<in> set [alice]. user_normalised u"
    by (simp add: user_normalised_def alice_def)
  show ?thesis
    using normalise_persist [of "[legacy_user]" fresh_world "[legacy_post]"]
      normalise_persist [of "[alice]" fresh_world "[]"] changes shaped
    by (simp add: fresh_world_def)
qed

text \<open>
  C3, as the specification states it, fails for the posts: the legacy post is amended by
  \<^verbatim>\<open>normalisePosts\<close> (two fields are backfilled), and the store is the same afterwards,
  so posts.json has not been written.
\<close>

theorem normalisePosts_persist_counterexample:
  "fst (normalisePosts (loadPosts legacy_world) legacy_world) \<noteq> loadPosts legacy_world \<and>
   posts_writes (snd (normalisePosts (loadPosts legacy_world) legacy_world)) =
     posts_writes legacy_world \<and>
   posts_json (snd (normalisePosts (loadPosts legacy_world) legacy_world)) = [legacy_post]"
  by (simp add: normalisePosts_def loadPosts_def legacy_world_def legacy_post_def
      normalise_post_def fresh_world_def)

text \<open>
  C6: normalisation is idempotent. A collection in canonical shape comes back unchanged and
  the store is untouched (no write, no reading of the clock); and the collection that a
  normalisation returns is such a collection, so that normalising it again, at any later
  state \<open>w'\<close> of the store, changes nothing and writes nothing. For the users the second
  half needs the clock never to read 0, the one time stamp that \<^verbatim>\<open>!u.joinedAt\<close> takes for
  a missing one.
\<close>

theorem normalisation_idempotent:
  "((\<forall>u \<in> set us. user_normalised u) \<longrightarrow> normaliseUsers us w = (us, w)) \<and>
   ((\<forall>p \<in> set ps. post_normalised p) \<longrightarrow> normalisePosts ps w = (ps, w)) \<and>
   ((\<forall>k. clock w k \<noteq> 0) \<longrightarrow>
      normaliseUsers (fst (normaliseUsers us w)) w' = (fst (normaliseUsers us w), w')) \<and>
   normalisePosts (fst (normalisePosts ps w)) w' = (fst (normalisePosts ps w), w')"
proof -
  have users: "(\<forall>u \<in> set us. user_normalised u) \<longrightarrow> normaliseUsers us w = (us, w)"
    using normaliseUsers_fixed by blast
  have posts: "(\<forall>p \<in> set ps. post_normalised p) \<longrightarrow> normalisePosts ps w = (ps, w)"
    by (simp add: normalisePosts_def normalise_post_fixed map_idI)
  have users_again: "(\<forall>k. clock w k \<noteq> 0) \<longrightarrow>
      normaliseUsers (fst (normaliseUsers us w)) w' = (fst (normaliseUsers us w), w')"
    using normaliseUsers_normalised normaliseUsers_fixed by blast
  have posts_again:
    "normalisePosts (fst (normalisePosts ps w)) w' = (fst (normalisePosts ps w), w')"
    by (simp add: normalisePosts_def normalise_post_fixed normalise_post_normalised)
  from users posts users_again posts_again show ?thesis by blast
qed

theorem normalisation_idempotent_witness:
  "normaliseUsers [alice, bob] fresh_world = ([alice, bob], fresh_world) \<and>
   normalisePosts [clean_post] fresh_world = ([clean_post], fresh_world) \<and>
   normaliseUsers (fst (normaliseUsers [legacy_user] fresh_world)) legacy_world =
     (fst (normaliseUsers [legacy_user] fresh_world), legacy_world) \<and>
   normalisePosts (fst (normalisePosts [legacy_post] fresh_world)) legacy_world =
     (fst (normalisePosts [legacy_post] fresh_world), legacy_world)"
proof -
  have users: "\<forall>u \<in> set [alice, bob]. user_normalised u"
    by (simp add: user_normalised_def alice_def bob_def)
  have posts: "\<forall>p \<in> set [clean_post]. post_normalised p"
    by (simp add: post_normalised_def clean_post_def)
  have ticks: "\<forall>k. clock fresh_world k \<noteq> 0"
    by (simp add: fresh_world_def)
  show ?thesis
    using normalisation_idempotent [of "[alice, bob]" fresh_world "[clean_post]" legacy_world]
      normalisation_idempotent [of "[legacy_user]" fresh_world "[legacy_post]" legacy_world]
      users posts ticks
    by simp
qed

section \<open>Loading the files\<close>

lemma load_file_missing: "fs p = None \<Longrightarrow> load_file parse p fs = Inl ENOENT"
  by (simp add: load_file_def readFileSync_def and_then_def)

lemma load_file_empty:
  "parse ''[]'' = Inr [] \<Longrightarrow> fs p = Some (File []) \<Longrightarrow> load_file parse p fs = Inr []"
  by (simp add: load_file_def readFileSync_def and_then_def)

lemma load_file_fresh:
  "parse ''[]'' = Inr [] \<Longrightarrow> fs p = Some (File ''[]'') \<Longrightarrow> load_file parse p fs = Inr []"
  by (simp add: load_file_def readFileSync_def and_then_def)

lemma startup_creates_users:
  "startup fs0 = Inr fs \<Longrightarrow> fs0 USERS_FILE = None \<Longrightarrow> fs USERS_FILE = Some (File ''[]'')"
  by (auto simp: startup_def and_then_def ensure_dir_def ensure_file_def existsSync_def
      mkdirSync_def writeFileSync_def split: sum.splits if_splits)

lemma startup_creates_posts:
  "startup fs0 = Inr fs \<Longrightarrow> fs0 POSTS_FILE = None \<Longrightarrow> fs POSTS_FILE = Some (File ''[]'')"
  by (auto simp: startup_def and_then_def ensure_dir_def ensure_file_def existsSync_def
      mkdirSync_def writeFileSync_def split: sum.splits if_splits)

lemma startup_keeps_files:
  "startup fs0 = Inr fs \<Longrightarrow> fs0 p = Some (File s) \<Longrightarrow> fs p = Some (File s)"
  by (auto simp: startup_def and_then_def ensure_dir_def ensure_file_def existsSync_def
      mkdirSync_def writeFileSync_def split: sum.splits if_splits)

lemma startup_succeeds:
  assumes "fs0 AppDir = Some Dir" "fs0 PublicDir = Some Dir"
    and "fs0 DATA_DIR = None \<or> fs0 DATA_DIR = Some Dir"
    and "fs0 UPLOAD_DIR = None \<or> fs0 UPLOAD_DIR = Some Dir"
    and "fs0 USERS_FILE \<noteq> Some Dir" "fs0 POSTS_FILE \<noteq> Some Dir"
  shows "\<exists>fs. startup fs0 = Inr fs"
  using assms
  by (auto simp: startup_def and_then_def ensure_dir_def ensure_file_def existsSync_def
      mkdirSync_def writeFileSync_def)

text \<open>
  C4, as the code has it. For any \<^verbatim>\<open>JSON.parse\<close> that reads \<^verbatim>\<open>[]\<close> as the empty array:
  loading an empty file returns the empty sequence; so does loading, after the start of the
  server, a file that was missing before it, because the start writes \<^verbatim>\<open>[]\<close> to a
  missing file; and loading a file that is missing at the time of the call raises the
  \<^verbatim>\<open>ENOENT\<close> of \<^verbatim>\<open>readFileSync\<close>.
\<close>

theorem load_empty_or_initialised:
  assumes "parse ''[]'' = Inr []"
  shows "(fs USERS_FILE = Some (File []) \<longrightarrow> loadUsers_file parse fs = Inr []) \<and>
         (fs POSTS_FILE = Some (File []) \<longrightarrow> loadPosts_file parse fs = Inr []) \<and>
         (startup fs0 = Inr fs \<and> fs0 USERS_FILE = None \<longrightarrow> loadUsers_file parse fs = Inr []) \<and>
         (startup fs0 = Inr fs \<and> fs0 POSTS_FILE = None \<longrightarrow> loadPosts_file parse fs = Inr []) \<and>
         (fs USERS_FILE = None \<longrightarrow> loadUsers_file parse fs = Inl ENOENT) \<and>
         (fs POSTS_FILE = None \<longrightarrow> loadPosts_file parse fs = Inl ENOENT)"
  using assms
  by (auto simp: loadUsers_file_def loadPosts_file_def load_file_missing load_file_empty
      load_file_fresh startup_creates_users startup_creates_posts)

lemma startup_bare: "startup bare_fs = Inr (bare_fs(DATA_DIR \<mapsto> Dir, UPLOAD_DIR \<mapsto> Dir, USERS_FILE \<mapsto> File ''[]'', POSTS_FILE \<mapsto> File ''[]''))"
  by (simp add: startup_def and_then_def ensure_dir_def ensure_file_def existsSync_def
      mkdirSync_def writeFileSync_def bare_fs_def)

theorem load_empty_or_initialised_witness:
  "loadUsers_file parse_empty_array (bare_fs(DATA_DIR \<mapsto> Dir, USERS_FILE \<mapsto> File [])) = Inr [] \<and>
   loadPosts_file parse_empty_array (bare_fs(DATA_DIR \<mapsto> Dir, POSTS_FILE \<mapsto> File [])) = Inr [] \<and>
   loadUsers_file parse_empty_array
     (bare_fs(DATA_DIR \<mapsto> Dir, UPLOAD_DIR \<mapsto> Dir, USERS_FILE \<mapsto> File ''[]'', POSTS_FILE \<mapsto> File ''[]'')) = Inr [] \<and>
   loadPosts_file parse_empty_array
     (bare_fs(DATA_DIR \<mapsto> Dir, UPLOAD_DIR \<mapsto> Dir, USERS_FILE \<mapsto> File ''[]'', POSTS_FILE \<mapsto> File ''[]'')) = Inr [] \<and>
   loadUsers_file parse_empty_array bare_fs = Inl ENOENT \<and>
   loadPosts_file parse_empty_array bare_fs = Inl ENOENT"
proof -
  have parse: "parse_empty_array ''[]'' = Inr []"
    by (simp add: parse_empty_array_def)
  have missing: "bare_fs USERS_FILE = None" "bare_fs POSTS_FILE = None"
    by (simp_all add: bare_fs_def)
  show ?thesis
    using load_empty_or_initialised [of parse_empty_array "bare_fs(DATA_DIR \<mapsto> Dir, USERS_FILE \<mapsto> File [])" bare_fs]
      load_empty_or_initialised [of parse_empty_array "bare_fs(DATA_DIR \<mapsto> Dir, POSTS_FILE \<mapsto> File [])" bare_fs]
      load_empty_or_initialised [of parse_empty_array "bare_fs(DATA_DIR \<mapsto> Dir, UPLOAD_DIR \<mapsto> Dir, USERS_FILE \<mapsto> File ''[]'', POSTS_FILE \<mapsto> File ''[]'')" bare_fs]
      load_empty_or_initialised [of parse_empty_array bare_fs bare_fs]
      startup_bare missing parse
    by simp
qed

text \<open>
  C4, as the specification states it, fails for a missing file: in a checkout that has no
  \<^verbatim>\<open>data\<close> directory, both load functions raise instead of returning an empty sequence.
\<close>

theorem load_missing_counterexample:
  "loadUsers_file parse_empty_array bare_fs = Inl ENOENT \<and>
   loadPosts_file parse_empty_array bare_fs = Inl ENOENT"
  by (simp add: loadUsers_file_def loadPosts_file_def load_file_def readFileSync_def
      and_then_def bare_fs_def)

section \<open>Pagination\<close>

lemma slice_take_drop:
  assumes "0 \<le> a" "0 \<le> n"
  shows "slice a (a + n) xs = take (nat n) (drop (nat a) xs)"
proof (cases "a < int (length xs)")
  case True
  show ?thesis
  proof (cases "a + n \<le> int (length xs)")
    case True
    with assms \<open>a < int (length xs)\<close> show ?thesis
      by (simp add: slice_def Let_def min_def)
  next
    case False
    with assms \<open>a < int (length xs)\<close>
    have "slice a (a + n) xs = take (nat (int (length xs) - a)) (drop (nat a) xs)"
      by (simp add: slice_def Let_def min_def)
    moreover have "length (drop (nat a) xs) \<le> nat (int (length xs) - a)"
      using assms by simp
    moreover have "length (drop (nat a) xs) \<le> nat n"
      using assms False by simp
    ultimately show ?thesis by simp
  qed
next
  case False
  with assms show ?thesis
    by (simp add: slice_def Let_def min_def)
qed

lemma requested_page_ge1: "1 \<le> requested_page q"
  by (simp add: requested_page_def split: option.splits)

lemma requested_page_clamp:
  "requested_page q = (case parseInt10 (or_else q ''1'') of None \<Rightarrow> 1 | Some n \<Rightarrow> max 1 n)"
  by (simp add: requested_page_def max_def split: option.splits)

lemma page_start_inside:
  assumes S: "0 < S" and N: "0 < N" and p: "1 \<le> page" "page \<le> max 1 \<lceil>real N / real_of_int S\<rceil>"
  shows "(page - 1) * S < int N"
proof -
  have "real_of_int (page - 1) < real N / real_of_int S"
  proof (cases "1 \<le> \<lceil>real N / real_of_int S\<rceil>")
    case True
    then have "page \<le> \<lceil>real N / real_of_int S\<rceil>" using p by simp
    then have "real_of_int page - 1 < real N / real_of_int S"
      by linarith
    then show ?thesis by simp
  next
    case False
    then have "page = 1" using p by simp
    then show ?thesis using S N by simp
  qed
  then have "real_of_int (page - 1) * real_of_int S < real N"
    using S by (simp add: pos_less_divide_eq)
  then have "real_of_int ((page - 1) * S) < real_of_int (int N)"
    by simp
  then show ?thesis by linarith
qed

text \<open>
  C7: for a page size \<open>S > 0\<close> (the handlers use \<open>POSTS_PER_PAGE = 5\<close>) and the page that a
  request asks for, the number of pages is \<open>ceil(N / S)\<close> but at least 1; the page shown is
  the requested number clamped into \<open>[1, totalPages]\<close> (1 when the parameter is not a
  number); the posts shown are the \<open>S\<close> posts from index \<open>(page - 1) * S\<close> on, as far as they
  exist; and a collection that is not empty never yields an empty page.
\<close>

theorem paginate_bounds:
  assumes "0 < S" and "paginate S posts (requested_page q) = (items, page, totalPages)"
  shows "totalPages = max 1 \<lceil>real (length posts) / real_of_int S\<rceil> \<and>
         1 \<le> totalPages \<and>
         page = (case parseInt10 (or_else q ''1'') of
                   None \<Rightarrow> 1
                 | Some n \<Rightarrow> max 1 (min n totalPages)) \<and>
         1 \<le> page \<and> page \<le> totalPages \<and>
         items = take (nat S) (drop (nat ((page - 1) * S)) posts) \<and>
         (posts \<noteq> [] \<longrightarrow> items \<noteq> [])"
proof -
  let ?pages = "max 1 \<lceil>real (length posts) / real_of_int S\<rceil>"
  let ?page0 = "requested_page q"
  have run: "items = slice ((page - 1) * S) ((page - 1) * S + S) posts \<and>
      page = (if ?page0 > ?pages then ?pages else ?page0) \<and> totalPages = ?pages"
    using assms(2) unfolding paginate_def Let_def by blast
  then have totalPages: "totalPages = ?pages"
    and page: "page = (if ?page0 > totalPages then totalPages else ?page0)"
    and items: "items = slice ((page - 1) * S) ((page - 1) * S + S) posts"
    by blast+
  have t1: "1 \<le> totalPages" using totalPages by simp
  have p1: "1 \<le> page" using page t1 requested_page_ge1 [of q] by simp
  have p2: "page \<le> totalPages" using page by simp
  have clamp: "page = (case parseInt10 (or_else q ''1'') of
                   None \<Rightarrow> 1
                 | Some n \<Rightarrow> max 1 (min n totalPages))"
    using page t1 by (auto simp: requested_page_def split: option.splits)
  have start: "0 \<le> (page - 1) * S" using p1 assms(1) by simp
  have take_drop: "items = take (nat S) (drop (nat ((page - 1) * S)) posts)"
    using items slice_take_drop [OF start, of S posts] assms(1) by simp
  have nonempty: "posts \<noteq> [] \<longrightarrow> items \<noteq> []"
  proof
    assume "posts \<noteq> []"
    then have "0 < length posts" by simp
    then have "(page - 1) * S < int (length posts)"
      using page_start_inside [OF assms(1) _ p1] p2 totalPages by simp
    then have "drop (nat ((page - 1) * S)) posts \<noteq> []"
      using start by simp
    then show "items \<noteq> []"
      using take_drop assms(1) by simp
  qed
  from totalPages t1 clamp p1 p2 take_drop nonempty show ?thesis by blast
qed

lemma length_normalisePosts: "length (fst (normalisePosts ps w)) = length ps"
  by (simp add: normalisePosts_def)

lemma get_index_paginates:
  "get_index q w =
     (case paginate POSTS_PER_PAGE
             (sort_key (\<lambda>p. - createdAt p) (map normalise_post (posts_json w)))
             (requested_page q) of
        (items, page, totalPages) \<Rightarrow> (RenderPage ''index'' items page totalPages, w))"
  by (simp add: get_index_def normalisePosts_def loadPosts_def Let_def)

lemma get_top_paginates:
  "get_top q w =
     (case paginate POSTS_PER_PAGE
             (sort_key (\<lambda>p. (- likes_or_0 (likes p), - createdAt p))
                (map normalise_post (posts_json w)))
             (requested_page q) of
        (items, page, totalPages) \<Rightarrow> (RenderPage ''top'' items page totalPages, w))"
  by (simp add: get_top_def normalisePosts_def loadPosts_def Let_def)

theorem paginate_bounds_witness:
  "paginate POSTS_PER_PAGE (replicate 7 clean_post) (requested_page (Some ''9'')) =
     (replicate 2 clean_post, 2, 2) \<and>
   parseInt10 (or_else (Some ''9'') ''1'') = Some 9 \<and>
   paginate POSTS_PER_PAGE [] (requested_page None) = ([], 1, 1)"
proof -
  have size: "0 < POSTS_PER_PAGE" by (simp add: POSTS_PER_PAGE_def)
  have parsed: "parseInt10 (or_else (Some ''9'') ''1'') = Some 9"
    by (simp add: parseInt10_def is_ws_def is_digit_def digit_value_def)
  obtain items page totalPages where run:
    "paginate POSTS_PER_PAGE (replicate 7 clean_post) (requested_page (Some ''9'')) = (items, page, totalPages)"
    by (metis prod_cases3)
  have seven: "\<lceil>real (length (replicate 7 clean_post)) / real_of_int POSTS_PER_PAGE\<rceil> = 2"
    by (simp add: POSTS_PER_PAGE_def)
  obtain items0 page0 totalPages0 where run0:
    "paginate POSTS_PER_PAGE ([] :: post list) (requested_page None) = (items0, page0, totalPages0)"
    by (metis prod_cases3)
  have one: "parseInt10 (or_else None ''1'') = Some 1"
    by (simp add: parseInt10_def is_ws_def is_digit_def digit_value_def)
  have "items = replicate 2 clean_post \<and> page = 2 \<and> totalPages = 2"
    using paginate_bounds [OF size run] parsed seven
    by (simp add: POSTS_PER_PAGE_def numeral_eq_Suc)
  moreover have "items0 = [] \<and> page0 = 1 \<and> totalPages0 = 1"
    using paginate_bounds [OF size run0] one by simp
  ultimately show ?thesis using run run0 parsed by simp
qed

section \<open>Login\<close>

lemma find_rel:
  assumes "list_all2 R xs ys" and "\<And>x y. R x y \<Longrightarrow> P x = Q y"
  shows "rel_option R (find P xs) (find Q ys)"
  using assms(1)
proof (induction xs ys rule: list_all2_induct)
  case Nil
  show ?case by simp
next
  case (Cons x xs y ys)
  have "P x = Q y" using assms(2) Cons.hyps(1) by blast
  then show ?case using Cons by simp
qed

lemma find_unique:
  assumes "distinct (map f xs)" "x \<in> set xs" "P x" "\<forall>y. P y \<longrightarrow> f y = f x"
  shows "find P xs = Some x"
  using assms(1,2)
proof (induction xs)
  case Nil
  then show ?case by simp
next
  case (Cons a xs)
  show ?case
  proof (cases "P a")
    case True
    then have "f a = f x" using assms(4) by blast
    then have "a = x" using Cons.prems by (auto simp: image_iff)
    with True show ?thesis by simp
  next
    case False
    then have "x \<noteq> a" using assms(3) by blast
    then have "x \<in> set xs" using Cons.prems(2) by simp
    moreover have "distinct (map f xs)" using Cons.prems(1) by simp
    ultimately have "find P xs = Some x" by (rule Cons.IH [rotated])
    then show ?thesis using False by simp
  qed
qed

lemma find_SomeD_both: "find P xs = Some x \<Longrightarrow> x \<in> set xs \<and> P x"
  by (induction xs) (auto split: if_splits)

lemma normaliseUsers_length: "length (fst (normaliseUsers us w)) = length us"
  using normaliseUsers_rel [of us w] by (simp add: list_all2_lengthD)

lemma normaliseUsers_posts: "posts_json (snd (normaliseUsers us w)) = posts_json w \<and>
    posts_writes (snd (normaliseUsers us w)) = posts_writes w \<and>
    clock (snd (normaliseUsers us w)) = clock w"
proof -
  obtain us' c w' where run: "forEach_users us False w = (us', c, w')"
    by (metis prod_cases3)
  obtain n where "w' = w\<lparr>clock_reads := n\<rparr>"
    using forEach_users_world [of us False w] run by auto
  with run show ?thesis by (simp add: normaliseUsers_def saveUsers_def)
qed

lemma normaliseUsers_store:
  "users_json (snd (normaliseUsers (users_json w) w)) = fst (normaliseUsers (users_json w) w)"
proof (cases "\<forall>u \<in> set (users_json w). user_normalised u")
  case True
  then show ?thesis by (simp add: normaliseUsers_fixed)
next
  case False
  then obtain n where "snd (normaliseUsers (users_json w) w) =
      w\<lparr>clock_reads := n, users_json := fst (normaliseUsers (users_json w) w),
        users_writes := Suc (users_writes w)\<rparr>"
    using normaliseUsers_amended [of "users_json w" w] by blast
  then show ?thesis by simp
qed

lemma find_credentials_normalised:
  "rel_option (\<lambda>u u'. \<exists>c v. u' = fst (normalise_user u c v))
     (find (\<lambda>u. Some (username u) = bu \<and> Some (passwordPlain u) = bp) us)
     (find (\<lambda>u. Some (username u) = bu \<and> Some (passwordPlain u) = bp) (fst (normaliseUsers us w)))"
  by (rule find_rel [OF normaliseUsers_rel]) (auto simp: normalise_user_keeps)

lemma find_username_normalised:
  "rel_option (\<lambda>u u'. \<exists>c v. u' = fst (normalise_user u c v))
     (find (has_username n) us) (find (has_username n) (fst (normaliseUsers us w)))"
  by (rule find_rel [OF normaliseUsers_rel]) (auto simp: normalise_user_keeps has_username_def)

text \<open>The outcome of a login, read off the stored collection.\<close>

lemma login_result:
  "fst (login bu bp s w) =
     (case find (\<lambda>u. Some (username u) = bu \<and> Some (passwordPlain u) = bp) (users_json w) of
        None \<Rightarrow> InvalidCredentialError
      | Some u \<Rightarrow>
          if banned u = JBool True then BannedError
          else Redirect ''/'') \<and>
   fst (snd (login bu bp s w)) =
     (case find (\<lambda>u. Some (username u) = bu \<and> Some (passwordPlain u) = bp) (users_json w) of
        None \<Rightarrow> s
      | Some u \<Rightarrow> if banned u = JBool True then s else Some (username u))"
proof -
  let ?P = "\<lambda>u. Some (username u) = bu \<and> Some (passwordPlain u) = bp"
  obtain us' w1 where norm: "normaliseUsers (users_json w) w = (us', w1)"
    by (metis surj_pair)
  have rel: "rel_option (\<lambda>u u'. \<exists>c v. u' = fst (normalise_user u c v))
      (find ?P (users_json w)) (find ?P us')"
    using find_credentials_normalised [of bu bp "users_json w" w] norm by simp
  show ?thesis
  proof (cases "find ?P (users_json w)")
    case None
    then have "find ?P us' = None" using rel by simp
    with None norm show ?thesis by (simp add: login_def loadUsers_def)
  next
    case (Some u)
    then obtain u' c v where u': "find ?P us' = Some u'" "u' = fst (normalise_user u c v)"
      using rel by (auto simp: option_rel_Some1)
    then have "truthy (banned u') = (banned u = JBool True)" "username u' = username u"
      by (simp_all add: normalise_user_banned normalise_user_keeps)
    with Some u' norm show ?thesis by (simp add: login_def loadUsers_def)
  qed
qed

lemma login_failures:
  "InvalidCredentialError \<noteq> Redirect r" "BannedError \<noteq> Redirect r"
  "BannedError \<noteq> InvalidCredentialError"
  by (simp_all add: BannedError_def InvalidCredentialError_def)

text \<open>
  C9: in a collection with unique user names, logging in to a banned account with its own
  user name and password is answered with the banned response (status 403); a pair that
  matches no record is answered with the invalid-credentials response (status 401), which
  is a different response; and the login succeeds, redirecting to \<^verbatim>\<open>/\<close> with the session
  bound to the user name, exactly when the pair matches a record that is not banned.
\<close>

theorem login_banned_distinct:
  assumes "distinct (map username (users_json w))"
  shows "(\<forall>u \<in> set (users_json w).
            banned u = JBool True \<longrightarrow>
            fst (login (Some (username u)) (Some (passwordPlain u)) s w) =
              BannedError) \<and>
         ((\<not> (\<exists>u \<in> set (users_json w). Some (username u) = bu \<and> Some (passwordPlain u) = bp)) \<longrightarrow>
            fst (login bu bp s w) = InvalidCredentialError) \<and>
         BannedError \<noteq>
           InvalidCredentialError \<and>
         ((fst (login bu bp s w) = Redirect ''/'') =
            (\<exists>u \<in> set (users_json w). Some (username u) = bu \<and> Some (passwordPlain u) = bp \<and>
               banned u \<noteq> JBool True)) \<and>
         (fst (login bu bp s w) = Redirect ''/'' \<longrightarrow> fst (snd (login bu bp s w)) = bu)"
proof -
  let ?P = "\<lambda>bu bp u. Some (username u) = bu \<and> Some (passwordPlain u) = bp"
  have found: "find (?P bu bp) (users_json w) = Some u"
    if "u \<in> set (users_json w)" "?P bu bp u" for u bu bp
  proof (rule find_unique [OF assms that(1)])
    show "?P bu bp u" by (rule that(2))
    show "\<forall>y. ?P bu bp y \<longrightarrow> username y = username u"
      using that(2) by auto
  qed
  have banned_case: "\<forall>u \<in> set (users_json w).
            banned u = JBool True \<longrightarrow>
            fst (login (Some (username u)) (Some (passwordPlain u)) s w) =
              BannedError"
  proof (intro ballI impI)
    fix u assume u: "u \<in> set (users_json w)" "banned u = JBool True"
    have "find (?P (Some (username u)) (Some (passwordPlain u))) (users_json w) = Some u"
      using found [OF u(1)] by simp
    then show "fst (login (Some (username u)) (Some (passwordPlain u)) s w) =
              BannedError"
      using login_result [of "Some (username u)" "Some (passwordPlain u)" s w] u(2) by simp
  qed
  have invalid_case: "(\<not> (\<exists>u \<in> set (users_json w). ?P bu bp u)) \<longrightarrow>
            fst (login bu bp s w) = InvalidCredentialError"
  proof
    assume "\<not> (\<exists>u \<in> set (users_json w). ?P bu bp u)"
    then have "find (?P bu bp) (users_json w) = None"
      by (simp add: find_None_iff)
    then show "fst (login bu bp s w) = InvalidCredentialError"
      using login_result [of bu bp s w] by simp
  qed
  have success_case: "(fst (login bu bp s w) = Redirect ''/'') =
            (\<exists>u \<in> set (users_json w). ?P bu bp u \<and> banned u \<noteq> JBool True)"
  proof (cases "find (?P bu bp) (users_json w)")
    case None
    then have "\<not> (\<exists>u \<in> set (users_json w). ?P bu bp u)"
      by (simp add: find_None_iff)
    moreover have "fst (login bu bp s w) = InvalidCredentialError"
      using login_result [of bu bp s w] None by simp
    ultimately show ?thesis by (auto simp: login_failures)
  next
    case (Some u)
    then have u: "u \<in> set (users_json w)" "?P bu bp u"
      using find_SomeD_both [of "?P bu bp" "users_json w" u] by simp_all
    have only: "v = u" if "v \<in> set (users_json w)" "?P bu bp v" for v
      using found [OF that] Some by simp
    show ?thesis
    proof (cases "banned u = JBool True")
      case True
      then have "fst (login bu bp s w) \<noteq> Redirect ''/''"
        using login_result [of bu bp s w] Some by (simp add: login_failures)
      moreover have "\<not> (\<exists>v \<in> set (users_json w). ?P bu bp v \<and> banned v \<noteq> JBool True)"
        using only True by blast
      ultimately show ?thesis by blast
    next
      case False
      then have "fst (login bu bp s w) = Redirect ''/''"
        using login_result [of bu bp s w] Some by simp
      with u False show ?thesis by blast
    qed
  qed
  have session_case: "fst (login bu bp s w) = Redirect ''/'' \<longrightarrow> fst (snd (login bu bp s w)) = bu"
  proof (cases "find (?P bu bp) (users_json w)")
    case None
    then show ?thesis using login_result [of bu bp s w] by (simp add: login_failures)
  next
    case (Some u)
    then have "?P bu bp u"
      using find_SomeD_both [of "?P bu bp" "users_json w" u] by simp
    with Some show ?thesis
      using login_result [of bu bp s w] by (auto simp: login_failures split: if_splits)
  qed
  have differ: "BannedError \<noteq>
           InvalidCredentialError"
    by (rule login_failures)
  from banned_case invalid_case differ success_case session_case show ?thesis
    by blast
qed

theorem login_banned_distinct_witness:
  "fst (login (Some ''bob'') (Some ''pw2'') None two_users_world) = BannedError \<and>
   fst (login (Some ''bob'') (Some ''nope'') None two_users_world) = InvalidCredentialError \<and>
   BannedError \<noteq> InvalidCredentialError \<and>
   fst (login (Some ''alice'') (Some ''pw1'') None two_users_world) = Redirect ''/'' \<and>
   fst (snd (login (Some ''alice'') (Some ''pw1'') None two_users_world)) = Some ''alice''"
proof -
  have names: "distinct (map username (users_json two_users_world))"
    by (simp add: two_users_world_def alice_def bob_def fresh_world_def)
  have stored: "users_json two_users_world = [alice, bob]"
    by (simp add: two_users_world_def fresh_world_def)
  have fields: "username alice = ''alice''" "passwordPlain alice = ''pw1''"
    "banned alice = JBool False" "username bob = ''bob''" "passwordPlain bob = ''pw2''"
    "banned bob = JBool True"
    by (simp_all add: alice_def bob_def)
  show ?thesis
    using login_banned_distinct [OF names, where s = None and bu = "Some ''bob''" and bp = "Some ''nope''"]
      login_banned_distinct [OF names, where s = None and bu = "Some ''alice''" and bp = "Some ''pw1''"]
    by (simp add: stored fields)
qed

section \<open>Registration\<close>

lemma find_username_None:
  "(find (has_username n) (fst (normaliseUsers us w)) = None) = (\<not> (\<exists>u \<in> set us. username u = n))"
proof -
  have "rel_option (\<lambda>u u'. \<exists>c v. u' = fst (normalise_user u c v))
     (find (has_username n) us) (find (has_username n) (fst (normaliseUsers us w)))"
    by (rule find_username_normalised)
  then have "(find (has_username n) (fst (normaliseUsers us w)) = None) = (find (has_username n) us = None)"
    by (cases "find (has_username n) us"; cases "find (has_username n) (fst (normaliseUsers us w))") simp_all
  then show ?thesis by (auto simp: find_None_iff has_username_def)
qed

lemma register_taken:
  assumes "rb_username body = Some name" "name \<noteq> []" "rb_password body = Some pw" "pw \<noteq> []"
    "rb_password2 body = Some pw"
    and "\<exists>u \<in> set (users_json w). username u = name"
  shows "register body s w = (DuplicateUsernameError, s, snd (normaliseUsers (users_json w) w))"
proof -
  obtain us' w1 where norm: "normaliseUsers (users_json w) w = (us', w1)"
    by (metis surj_pair)
  have "find (has_username name) us' \<noteq> None"
    using find_username_None [of name "users_json w" w] norm assms(6) by simp
  then obtain u where "find (has_username name) us' = Some u" by blast
  then show ?thesis
    using assms(1-5) norm by (simp add: register_def loadUsers_def)
qed

lemma register_fresh:
  assumes "rb_username body = Some name" "name \<noteq> []" "rb_password body = Some pw" "pw \<noteq> []"
    "rb_password2 body = Some pw"
    and "\<not> (\<exists>u \<in> set (users_json w). username u = name)"
    and "normaliseUsers (users_json w) w = (us', w1)"
  shows "register body s w =
           (Redirect ''/'', Some name,
            saveUsers (us' @
              [\<lparr>username = name, email = or_else (rb_email body) [], passwordPlain = pw,
                joinedAt = JNum (clock w1 (clock_reads w1)), isAdmin = JBool (users_json w = []),
                banned = JBool False, followers = JArr [], following = JArr []\<rparr>])
              (w1\<lparr>clock_reads := Suc (clock_reads w1)\<rparr>))"
proof -
  have none: "find (has_username name) us' = None"
    using find_username_None [of name "users_json w" w] assms(6,7) by simp
  have "length us' = length (users_json w)"
    using normaliseUsers_length [of "users_json w" w] assms(7) by simp
  then have first: "(length us' = 0) = (users_json w = [])" by simp
  show ?thesis
    using assms(1-5,7) none first
    by (simp add: register_def loadUsers_def Date_now_def)
qed

lemma normaliseUsers_names: "map username (fst (normaliseUsers us w)) = map username us"
proof -
  have "list_all2 (\<lambda>u u'. \<exists>c w. u' = fst (normalise_user u c w)) us us' \<Longrightarrow>
      map username us' = map username us" for us'
  proof (induction us us' rule: list_all2_induct)
    case Nil
    show ?case by simp
  next
    case (Cons u us u' us')
    then obtain c v where "u' = fst (normalise_user u c v)" by blast
    then have "username u' = username u" by (simp add: normalise_user_keeps)
    then show ?case using Cons.IH by simp
  qed
  then show ?thesis using normaliseUsers_rel [of us w] by blast
qed

text \<open>
  C8, as the code has it: a registration whose form is complete (user name and password
  present, the two passwords equal). If the user name is already present, compared as a
  string, the answer is the duplicate-username response, the session is unchanged and no
  user is added: the stored collection is the normalised form of the collection that was
  loaded, with the same user names in the same order, and the whole store is as it was when
  that collection was already in canonical shape. Otherwise the user is appended to the
  normalised collection with \<^verbatim>\<open>isAdmin\<close> true exactly when the collection was empty, and
  the session is bound to the new name.
\<close>

theorem register_first_admin:
  assumes "rb_username body = Some name" "name \<noteq> []" "rb_password body = Some pw" "pw \<noteq> []"
    "rb_password2 body = Some pw"
  shows "((\<exists>u \<in> set (users_json w). username u = name) \<longrightarrow>
            fst (register body s w) = DuplicateUsernameError \<and>
            fst (snd (register body s w)) = s \<and>
            users_json (snd (snd (register body s w))) = fst (normaliseUsers (users_json w) w) \<and>
            map username (users_json (snd (snd (register body s w)))) =
              map username (users_json w) \<and>
            ((\<forall>u \<in> set (users_json w). user_normalised u) \<longrightarrow>
               snd (snd (register body s w)) = w)) \<and>
         ((\<not> (\<exists>u \<in> set (users_json w). username u = name)) \<longrightarrow>
            fst (register body s w) = Redirect ''/'' \<and>
            fst (snd (register body s w)) = Some name \<and>
            (\<exists>t. users_json (snd (snd (register body s w))) =
               fst (normaliseUsers (users_json w) w) @
               [\<lparr>username = name, email = or_else (rb_email body) [], passwordPlain = pw,
                 joinedAt = JNum t, isAdmin = JBool (users_json w = []), banned = JBool False,
                 followers = JArr [], following = JArr []\<rparr>]))"
proof -
  have taken: "(\<exists>u \<in> set (users_json w). username u = name) \<longrightarrow>
            fst (register body s w) = DuplicateUsernameError \<and>
            fst (snd (register body s w)) = s \<and>
            users_json (snd (snd (register body s w))) = fst (normaliseUsers (users_json w) w) \<and>
            map username (users_json (snd (snd (register body s w)))) =
              map username (users_json w) \<and>
            ((\<forall>u \<in> set (users_json w). user_normalised u) \<longrightarrow>
               snd (snd (register body s w)) = w)"
  proof
    assume "\<exists>u \<in> set (users_json w). username u = name"
    then have run: "register body s w =
        (DuplicateUsernameError, s, snd (normaliseUsers (users_json w) w))"
      by (rule register_taken [OF assms])
    have "(\<forall>u \<in> set (users_json w). user_normalised u) \<longrightarrow>
        snd (normaliseUsers (users_json w) w) = w"
      by (simp add: normaliseUsers_fixed)
    then show "fst (register body s w) = DuplicateUsernameError \<and>
            fst (snd (register body s w)) = s \<and>
            users_json (snd (snd (register body s w))) = fst (normaliseUsers (users_json w) w) \<and>
            map username (users_json (snd (snd (register body s w)))) =
              map username (users_json w) \<and>
            ((\<forall>u \<in> set (users_json w). user_normalised u) \<longrightarrow>
               snd (snd (register body s w)) = w)"
      using run normaliseUsers_store [of w] normaliseUsers_names [of "users_json w" w] by simp
  qed
  have fresh: "(\<not> (\<exists>u \<in> set (users_json w). username u = name)) \<longrightarrow>
            fst (register body s w) = Redirect ''/'' \<and>
            fst (snd (register body s w)) = Some name \<and>
            (\<exists>t. users_json (snd (snd (register body s w))) =
               fst (normaliseUsers (users_json w) w) @
               [\<lparr>username = name, email = or_else (rb_email body) [], passwordPlain = pw,
                 joinedAt = JNum t, isAdmin = JBool (users_json w = []), banned = JBool False,
                 followers = JArr [], following = JArr []\<rparr>])"
  proof
    assume "\<not> (\<exists>u \<in> set (users_json w). username u = name)"
    moreover obtain us' w1 where norm: "normaliseUsers (users_json w) w = (us', w1)"
      by (metis surj_pair)
    ultimately have run: "register body s w =
           (Redirect ''/'', Some name,
            saveUsers (us' @
              [\<lparr>username = name, email = or_else (rb_email body) [], passwordPlain = pw,
                joinedAt = JNum (clock w1 (clock_reads w1)), isAdmin = JBool (users_json w = []),
                banned = JBool False, followers = JArr [], following = JArr []\<rparr>])
              (w1\<lparr>clock_reads := Suc (clock_reads w1)\<rparr>))"
      using register_fresh [OF assms, of w us' w1 s] by blast
    then show "fst (register body s w) = Redirect ''/'' \<and>
            fst (snd (register body s w)) = Some name \<and>
            (\<exists>t. users_json (snd (snd (register body s w))) =
               fst (normaliseUsers (users_json w) w) @
               [\<lparr>username = name, email = or_else (rb_email body) [], passwordPlain = pw,
                 joinedAt = JNum t, isAdmin = JBool (users_json w = []), banned = JBool False,
                 followers = JArr [], following = JArr []\<rparr>])"
      using norm by (simp add: saveUsers_def)
  qed
  from taken fresh show ?thesis by (rule conjI)
qed

theorem register_first_admin_witness:
  "fst (register alice_form None fresh_world) = Redirect ''/'' \<and>
   fst (snd (register alice_form None fresh_world)) = Some ''alice'' \<and>
   (\<exists>t. users_json (snd (snd (register alice_form None fresh_world))) =
      [\<lparr>username = ''alice'', email = ''a@example.org'', passwordPlain = ''pw1'',
        joinedAt = JNum t, isAdmin = JBool True, banned = JBool False,
        followers = JArr [], following = JArr []\<rparr>]) \<and>
   fst (register carol_form None two_users_world) = Redirect ''/'' \<and>
   (\<exists>t. users_json (snd (snd (register carol_form None two_users_world))) =
      [alice, bob,
       \<lparr>username = ''carol'', email = ''c@example.org'', passwordPlain = ''pw3'',
        joinedAt = JNum t, isAdmin = JBool False, banned = JBool False,
        followers = JArr [], following = JArr []\<rparr>]) \<and>
   fst (register bob_form None two_users_world) = DuplicateUsernameError \<and>
   snd (snd (register bob_form None two_users_world)) = two_users_world"
proof -
  have shaped: "\<forall>u \<in> set [alice, bob]. user_normalised u"
    by (simp add: user_normalised_def alice_def bob_def)
  have stored: "users_json two_users_world = [alice, bob]" "users_json fresh_world = []"
    by (simp_all add: two_users_world_def fresh_world_def)
  have norm: "fst (normaliseUsers [alice, bob] two_users_world) = [alice, bob]"
    "fst (normaliseUsers [] fresh_world) = []"
    using shaped by (simp_all add: normaliseUsers_fixed)
  have names: "username alice = ''alice''" "username bob = ''bob''"
    by (simp_all add: alice_def bob_def)
  have first: "fst (register alice_form None fresh_world) = Redirect ''/'' \<and>
     fst (snd (register alice_form None fresh_world)) = Some ''alice'' \<and>
     (\<exists>t. users_json (snd (snd (register alice_form None fresh_world))) =
        [\<lparr>username = ''alice'', email = ''a@example.org'', passwordPlain = ''pw1'',
          joinedAt = JNum t, isAdmin = JBool True, banned = JBool False,
          followers = JArr [], following = JArr []\<rparr>])"
    using register_first_admin [of alice_form "''alice''" "''pw1''" fresh_world None]
    by (simp add: alice_form_def stored norm)
  have third: "fst (register carol_form None two_users_world) = Redirect ''/'' \<and>
     (\<exists>t. users_json (snd (snd (register carol_form None two_users_world))) =
        [alice, bob,
         \<lparr>username = ''carol'', email = ''c@example.org'', passwordPlain = ''pw3'',
          joinedAt = JNum t, isAdmin = JBool False, banned = JBool False,
          followers = JArr [], following = JArr []\<rparr>])"
    using register_first_admin [of carol_form "''carol''" "''pw3''" two_users_world None]
    by (simp add: carol_form_def stored norm names)
  have again: "fst (register bob_form None two_users_world) = DuplicateUsernameError \<and>
     snd (snd (register bob_form None two_users_world)) = two_users_world"
    using register_first_admin [of bob_form "''bob''" "''pw2''" two_users_world None] shaped
    by (simp add: bob_form_def stored norm names)
  from first third again show ?thesis by blast
qed

text \<open>
  C8, as the specification states it, fails in its last part: a rejected registration
  does not always leave the collection unchanged. The stored record of carol lacks five
  fields; registering carol again is rejected as a duplicate, and by then
  \<^verbatim>\<open>normaliseUsers\<close> has backfilled the record and written users.json.
\<close>

theorem register_duplicate_counterexample:
  "fst (register carol_form None legacy_users_world) = DuplicateUsernameError \<and>
   users_json (snd (snd (register carol_form None legacy_users_world))) \<noteq>
     users_json legacy_users_world \<and>
   users_writes (snd (snd (register carol_form None legacy_users_world))) =
     Suc (users_writes legacy_users_world) \<and>
   users_json (snd (snd (register carol_form None legacy_users_world))) =
     [\<lparr>username = ''carol'', email = [], passwordPlain = ''pw3'',
       joinedAt = JNum 1700000000000, isAdmin = JBool False, banned = JBool False,
       followers = JArr [], following = JArr []\<rparr>]"
  by (simp add: register_def carol_form_def legacy_users_world_def legacy_user_def
      fresh_world_def loadUsers_def normaliseUsers_def normalise_user_def saveUsers_def
      Date_now_def has_username_def Let_def)

section \<open>Deleting posts\<close>

lemma normalise_post_keeps:
  "post_id (normalise_post p) = post_id p"
  "author (normalise_post p) = author p"
  "createdAt (normalise_post p) = createdAt p"
  by (simp_all add: normalise_post_def Let_def)

lemma has_id_normalise: "has_id i (normalise_post p) = has_id i p"
  by (simp add: has_id_def normalise_post_keeps)

lemma find_has_id_normalised:
  "find (has_id i) (map normalise_post ps) = map_option normalise_post (find (has_id i) ps)"
  by (induction ps) (simp_all add: has_id_normalise)

lemma filter_has_id_normalised:
  "filter (\<lambda>q. \<not> has_id i q) (map normalise_post ps) =
     map normalise_post (filter (\<lambda>q. \<not> has_id i q) ps)"
  by (induction ps) (simp_all add: has_id_normalise)

lemma delete_post_result:
  assumes "user \<noteq> []"
  shows "delete_post (Some user) params_id w =
     (case find (has_id (parseInt10 params_id)) (posts_json w) of
        None \<Rightarrow> (NotFoundError, w)
      | Some p \<Rightarrow>
          if author p \<noteq> user then (ForbiddenError, w)
          else (Redirect ''/'',
                savePosts (map normalise_post
                  (filter (\<lambda>q. \<not> has_id (parseInt10 params_id) q) (posts_json w))) w))"
  using assms
  by (simp add: delete_post_def normalisePosts_def loadPosts_def Let_def
      find_has_id_normalised filter_has_id_normalised normalise_post_keeps
      split: option.splits)

lemma admin_delete_handler_result:
  "admin_delete_handler params_id w =
     (Redirect ''/admin'',
      savePosts (map normalise_post
        (filter (\<lambda>q. \<not> has_id (parseInt10 params_id) q) (posts_json w))) w)"
  by (simp add: admin_delete_handler_def normalisePosts_def loadPosts_def Let_def
      filter_has_id_normalised)

lemma requireAdmin_posts:
  "posts_json (snd (requireAdmin session w)) = posts_json w"
proof (cases session)
  case None
  then show ?thesis by (simp add: requireAdmin_def)
next
  case (Some name)
  obtain us' w1 where norm: "normaliseUsers (loadUsers w) w = (us', w1)"
    by (metis surj_pair)
  then have "posts_json w1 = posts_json w"
    using normaliseUsers_posts [of "loadUsers w" w] by simp
  with Some norm show ?thesis
    by (simp add: requireAdmin_def split: option.splits)
qed

lemma admin_route_pass:
  "fst (requireAdmin session w) = Next \<Longrightarrow>
   admin_route handler session w = handler (snd (requireAdmin session w))"
  by (cases "requireAdmin session w") (simp add: admin_route_def)

lemma admin_route_block:
  "fst (requireAdmin session w) \<noteq> Next \<Longrightarrow>
   admin_route handler session w = requireAdmin session w"
  by (cases "requireAdmin session w") (auto simp: admin_route_def split: response.splits)

text \<open>
  C10: several posts may carry the same id. For a logged-in user, \<^verbatim>\<open>/posts/:id/delete\<close>
  looks at the first post with the id only: without one the answer is 404, with one by
  another author it is 403, and in both cases the store is untouched; when the first one
  is the user's own, every post with that id is removed, whoever wrote it. The admin path,
  once \<^verbatim>\<open>requireAdmin\<close> lets the request through, removes every post with the id and
  redirects to \<^verbatim>\<open>/admin\<close> whether or not such a post exists. The collection that is
  written is the normalised one.
\<close>

theorem delete_removes_all_with_id:
  assumes "user \<noteq> []"
  shows "(find (has_id (parseInt10 params_id)) (posts_json w) = None \<longrightarrow>
            delete_post (Some user) params_id w = (NotFoundError, w)) \<and>
         (\<forall>p. find (has_id (parseInt10 params_id)) (posts_json w) = Some p \<and> author p \<noteq> user \<longrightarrow>
            delete_post (Some user) params_id w = (ForbiddenError, w)) \<and>
         (\<forall>p. find (has_id (parseInt10 params_id)) (posts_json w) = Some p \<and> author p = user \<longrightarrow>
            fst (delete_post (Some user) params_id w) = Redirect ''/'' \<and>
            posts_json (snd (delete_post (Some user) params_id w)) =
              map normalise_post
                (filter (\<lambda>q. \<not> has_id (parseInt10 params_id) q) (posts_json w)) \<and>
            (\<forall>q \<in> set (posts_json (snd (delete_post (Some user) params_id w))).
               \<not> has_id (parseInt10 params_id) q)) \<and>
         (fst (requireAdmin session w) = Next \<longrightarrow>
            fst (admin_delete_post session params_id w) = Redirect ''/admin'' \<and>
            posts_json (snd (admin_delete_post session params_id w)) =
              map normalise_post
                (filter (\<lambda>q. \<not> has_id (parseInt10 params_id) q) (posts_json w)) \<and>
            (\<forall>q \<in> set (posts_json (snd (admin_delete_post session params_id w))).
               \<not> has_id (parseInt10 params_id) q))"
proof -
  let ?i = "parseInt10 params_id"
  let ?rest = "map normalise_post (filter (\<lambda>q. \<not> has_id ?i q) (posts_json w))"
  have gone: "\<forall>q \<in> set ?rest. \<not> has_id ?i q"
    by (simp add: has_id_normalise)
  have missing: "find (has_id ?i) (posts_json w) = None \<longrightarrow>
            delete_post (Some user) params_id w = (NotFoundError, w)"
    using delete_post_result [OF assms, of params_id w] by simp
  have foreign: "\<forall>p. find (has_id ?i) (posts_json w) = Some p \<and> author p \<noteq> user \<longrightarrow>
            delete_post (Some user) params_id w = (ForbiddenError, w)"
    using delete_post_result [OF assms, of params_id w] by simp
  have own: "\<forall>p. find (has_id ?i) (posts_json w) = Some p \<and> author p = user \<longrightarrow>
            fst (delete_post (Some user) params_id w) = Redirect ''/'' \<and>
            posts_json (snd (delete_post (Some user) params_id w)) = ?rest \<and>
            (\<forall>q \<in> set (posts_json (snd (delete_post (Some user) params_id w))).
               \<not> has_id ?i q)"
  proof (intro allI impI)
    fix p assume both: "find (has_id ?i) (posts_json w) = Some p \<and> author p = user"
    then have f: "find (has_id ?i) (posts_json w) = Some p" and a: "author p = user"
      by simp_all
    have run: "delete_post (Some user) params_id w = (Redirect ''/'', savePosts ?rest w)"
      using f a delete_post_result [OF assms, of params_id w] by simp
    then have r1: "fst (delete_post (Some user) params_id w) = Redirect ''/''"
      by simp
    have r2: "posts_json (snd (delete_post (Some user) params_id w)) = ?rest"
      using run by (simp add: savePosts_def)
    have r3: "\<forall>q \<in> set (posts_json (snd (delete_post (Some user) params_id w))). \<not> has_id ?i q"
      unfolding r2 by (rule gone)
    from r1 r2 r3 show "fst (delete_post (Some user) params_id w) = Redirect ''/'' \<and>
            posts_json (snd (delete_post (Some user) params_id w)) = ?rest \<and>
            (\<forall>q \<in> set (posts_json (snd (delete_post (Some user) params_id w))).
               \<not> has_id ?i q)"
      by (intro conjI)
  qed
  have admin: "fst (requireAdmin session w) = Next \<longrightarrow>
            fst (admin_delete_post session params_id w) = Redirect ''/admin'' \<and>
            posts_json (snd (admin_delete_post session params_id w)) = ?rest \<and>
            (\<forall>q \<in> set (posts_json (snd (admin_delete_post session params_id w))).
               \<not> has_id ?i q)"
  proof
    assume pass: "fst (requireAdmin session w) = Next"
    let ?w1 = "snd (requireAdmin session w)"
    have "admin_delete_post session params_id w = admin_delete_handler params_id ?w1"
      using admin_route_pass [OF pass] by (simp add: admin_delete_post_def)
    moreover have "posts_json ?w1 = posts_json w"
      by (rule requireAdmin_posts)
    ultimately have run: "admin_delete_post session params_id w =
        (Redirect ''/admin'', savePosts ?rest ?w1)"
      by (simp add: admin_delete_handler_result)
    then have r1: "fst (admin_delete_post session params_id w) = Redirect ''/admin''"
      by simp
    have r2: "posts_json (snd (admin_delete_post session params_id w)) = ?rest"
      using run by (simp add: savePosts_def)
    have r3: "\<forall>q \<in> set (posts_json (snd (admin_delete_post session params_id w))). \<not> has_id ?i q"
      unfolding r2 by (rule gone)
    from r1 r2 r3 show "fst (admin_delete_post session params_id w) = Redirect ''/admin'' \<and>
            posts_json (snd (admin_delete_post session params_id w)) = ?rest \<and>
            (\<forall>q \<in> set (posts_json (snd (admin_delete_post session params_id w))).
               \<not> has_id ?i q)"
      by (intro conjI)
  qed
  show ?thesis
    apply (intro conjI)
       apply (rule missing)
      apply (rule foreign)
     apply (rule own)
    apply (rule admin)
    done
qed

lemma parseInt10_twin: "parseInt10 ''1700000000123'' = Some 1700000000123"
  by (simp add: parseInt10_def is_ws_def is_digit_def digit_value_def)

lemma parseInt10_42: "parseInt10 ''42'' = Some 42"
  by (simp add: parseInt10_def is_ws_def is_digit_def digit_value_def)

lemma requireAdmin_alice: "requireAdmin (Some ''alice'') twins_world = (Next, twins_world)"
proof -
  have "\<forall>u \<in> set [alice, bob]. user_normalised u"
    by (simp add: user_normalised_def alice_def bob_def)
  then have "normaliseUsers [alice, bob] twins_world = ([alice, bob], twins_world)"
    by (rule normaliseUsers_fixed)
  moreover have "users_json twins_world = [alice, bob]"
    by (simp add: twins_world_def fresh_world_def)
  ultimately show ?thesis
    by (simp add: requireAdmin_def loadUsers_def has_username_def alice_def)
qed

theorem delete_removes_all_with_id_witness:
  "delete_post (Some ''bob'') ''42'' twins_world = (NotFoundError, twins_world) \<and>
   delete_post (Some ''bob'') ''1700000000123'' twins_world = (ForbiddenError, twins_world) \<and>
   fst (delete_post (Some ''alice'') ''1700000000123'' twins_world) = Redirect ''/'' \<and>
   posts_json (snd (delete_post (Some ''alice'') ''1700000000123'' twins_world)) = [clean_post] \<and>
   fst (admin_delete_post (Some ''alice'') ''42'' twins_world) = Redirect ''/admin'' \<and>
   posts_json (snd (admin_delete_post (Some ''alice'') ''42'' twins_world)) =
     [twin_a, twin_b, clean_post] \<and>
   posts_json (snd (admin_delete_post (Some ''alice'') ''1700000000123'' twins_world)) = [clean_post]"
proof -
  have stored: "posts_json twins_world = [twin_a, twin_b, clean_post]"
    by (simp add: twins_world_def fresh_world_def)
  have ids: "post_id twin_a = 1700000000123" "post_id twin_b = 1700000000123"
    "post_id clean_post = 1600000000777" "author twin_a = ''alice''"
    by (simp_all add: twin_a_def twin_b_def clean_post_def)
  have shaped: "normalise_post twin_a = twin_a" "normalise_post twin_b = twin_b"
    "normalise_post clean_post = clean_post"
    by (simp_all add: normalise_post_fixed post_normalised_def twin_a_def twin_b_def clean_post_def)
  have users: "''bob'' \<noteq> []" "''alice'' \<noteq> []" by simp_all
  have admin: "fst (requireAdmin (Some ''alice'') twins_world) = Next"
    by (simp add: requireAdmin_alice)
  have absent: "delete_post (Some ''bob'') ''42'' twins_world = (NotFoundError, twins_world)"
    using delete_removes_all_with_id [OF users(1), of "''42''" twins_world None]
    by (simp add: stored ids parseInt10_42 has_id_def)
  have foreign: "delete_post (Some ''bob'') ''1700000000123'' twins_world =
      (ForbiddenError, twins_world)"
    using delete_removes_all_with_id [OF users(1), of "''1700000000123''" twins_world None]
    by (simp add: stored ids parseInt10_twin has_id_def)
  have own: "fst (delete_post (Some ''alice'') ''1700000000123'' twins_world) = Redirect ''/'' \<and>
      posts_json (snd (delete_post (Some ''alice'') ''1700000000123'' twins_world)) = [clean_post]"
    using delete_removes_all_with_id [OF users(2), of "''1700000000123''" twins_world None]
    by (simp add: stored ids parseInt10_twin has_id_def shaped)
  have admin_absent: "fst (admin_delete_post (Some ''alice'') ''42'' twins_world) = Redirect ''/admin'' \<and>
      posts_json (snd (admin_delete_post (Some ''alice'') ''42'' twins_world)) =
        [twin_a, twin_b, clean_post]"
    using delete_removes_all_with_id [OF users(2), of "''42''" twins_world "Some ''alice''"] admin
    by (simp add: stored ids parseInt10_42 has_id_def shaped)
  have admin_twins:
    "posts_json (snd (admin_delete_post (Some ''alice'') ''1700000000123'' twins_world)) = [clean_post]"
    using delete_removes_all_with_id [OF users(2), of "''1700000000123''" twins_world "Some ''alice''"] admin
    by (simp add: stored ids parseInt10_twin has_id_def shaped)
  from absent foreign own admin_absent admin_twins show ?thesis by (intro conjI) simp_all
qed

section \<open>Likes\<close>

lemma indexOf_None: "(indexOf xs v = None) = (v \<notin> set xs)"
  by (induction xs) auto

lemma indexOf_remove1: "indexOf xs v = Some i \<Longrightarrow> splice1 i xs = remove1 v xs"
proof (induction xs arbitrary: i)
  case Nil
  then show ?case by simp
next
  case (Cons x xs)
  show ?case
  proof (cases "x = v")
    case True
    with Cons.prems show ?thesis by (simp add: splice1_def)
  next
    case False
    with Cons.prems obtain j where j: "indexOf xs v = Some j" "i = Suc j"
      by auto
    then have "splice1 j xs = remove1 v xs" using Cons.IH by simp
    with j False show ?thesis by (simp add: splice1_def)
  qed
qed

lemma toggle_like_absent:
  assumes "likedBy p = JArr xs" "JStr u \<notin> set xs"
  shows "toggle_like u p = Inr (p\<lparr>likedBy := JArr (xs @ [JStr u]), likes := increment (likes p)\<rparr>)"
  using assms by (simp add: toggle_like_def indexOf_None [symmetric])

lemma toggle_like_present:
  assumes "likedBy p = JArr xs" "JStr u \<in> set xs"
  shows "toggle_like u p =
    Inr (p\<lparr>likedBy := JArr (remove1 (JStr u) xs), likes := decrement_clamped (likes p)\<rparr>)"
proof -
  obtain i where i: "indexOf xs (JStr u) = Some i"
    using assms(2) indexOf_None [of xs "JStr u"] by auto
  then show ?thesis
    using assms(1) indexOf_remove1 [OF i] by (simp add: toggle_like_def)
qed



lemma array_cases: "isArray v \<Longrightarrow> \<exists>xs. v = JArr xs"
  by (cases v) simp_all


lemma normalise_post_likes:
  "is_number (likes p) \<Longrightarrow> likes (normalise_post p) = likes p"
  "isArray (likedBy p) \<Longrightarrow> likedBy (normalise_post p) = likedBy p"
  by (simp_all add: normalise_post_def Let_def)




lemma update_first_set: "set (update_first P (\<lambda>q. y) xs) \<subseteq> insert y (set xs)"
  by (induction xs) auto

lemma like_result:
  assumes "u \<noteq> []"
  shows "like (Some u) params_id w =
     (case find (has_id (parseInt10 params_id)) (map normalise_post (posts_json w)) of
        None \<Rightarrow> (NotFoundError, w)
      | Some p \<Rightarrow>
          (case toggle_like u p of
             Inl e \<Rightarrow> (Threw e, w)
           | Inr p' \<Rightarrow>
               (Redirect ''/'',
                savePosts (update_first (has_id (parseInt10 params_id)) (\<lambda>q. p')
                  (map normalise_post (posts_json w))) w)))"
  using assms by (simp add: like_def normalisePosts_def loadPosts_def Let_def)



lemma likes_consistent_normalise:
  "likes_consistent p \<Longrightarrow> likes_consistent (normalise_post p)"
proof -
  assume ok: "likes_consistent p"
  then have "is_number (likes p)" "isArray (likedBy p)"
    by (simp_all add: likes_consistent_def)
  then have "likes (normalise_post p) = likes p" "likedBy (normalise_post p) = likedBy p"
    by (simp_all add: normalise_post_likes)
  with ok show ?thesis by (simp add: likes_consistent_def)
qed

lemma likes_consistent_toggle:
  assumes "likes_consistent p" "toggle_like u p = Inr p'"
  shows "likes_consistent p'"
proof -
  obtain xs where xs: "likedBy p = JArr xs"
    using assms(1) array_cases by (auto simp: likes_consistent_def)
  then have shape: "distinct xs" "likes p = JNum (int (length xs))"
    using assms(1) by (simp_all add: likes_consistent_def)
  show ?thesis
  proof (cases "JStr u \<in> set xs")
    case False
    then have "p' = p\<lparr>likedBy := JArr (xs @ [JStr u]), likes := increment (likes p)\<rparr>"
      using toggle_like_absent [OF xs False] assms(2) by simp
    then show ?thesis using shape False by (simp add: likes_consistent_def)
  next
    case True
    then have nonempty: "xs \<noteq> []" by auto
    then have "int (length xs - Suc 0) = int (length xs) - 1"
      by (cases xs) simp_all
    moreover note nonempty
    moreover have "p' = p\<lparr>likedBy := JArr (remove1 (JStr u) xs), likes := decrement_clamped (likes p)\<rparr>"
      using toggle_like_present [OF xs True] assms(2) by simp
    ultimately show ?thesis
      using shape True by (simp add: likes_consistent_def length_remove1)
  qed
qed

lemma likes_consistent_comments:
  "likes_consistent (p\<lparr>comments := c\<rparr>) = likes_consistent p"
  by (simp add: likes_consistent_def)

lemma likes_consistent_push_comment:
  "likes_consistent p \<Longrightarrow> push_comment c p = Inr p' \<Longrightarrow> likes_consistent p'"
  by (cases "comments p") (auto simp: push_comment_def likes_consistent_comments)

lemma likes_consistent_remove_comment:
  assumes "likes_consistent p" "remove_comment u cid p = Inr (Removed p')"
  shows "likes_consistent p'"
proof -
  have "\<exists>c. p' = p\<lparr>comments := c\<rparr>"
    using assms(2)
    by (auto simp: remove_comment_def split: jsval.splits sum.splits option.splits if_splits)
  then show ?thesis using assms(1) by (auto simp: likes_consistent_comments)
qed

lemma find_in_set: "find P xs = Some x \<Longrightarrow> x \<in> set xs"
  using find_SomeD_both [of P xs x] by simp

lemma consistent_update_first:
  assumes "\<forall>p \<in> set ps. likes_consistent p" "likes_consistent y"
  shows "\<forall>p \<in> set (update_first P (\<lambda>q. y) ps). likes_consistent p"
  using assms update_first_set [of P y ps] by blast

lemma consistent_normalised:
  assumes "\<forall>p \<in> set ps. likes_consistent p"
  shows "\<forall>p \<in> set (map normalise_post ps). likes_consistent p"
  using assms by (simp add: likes_consistent_normalise)

lemma upload_consistent:
  assumes "\<forall>p \<in> set (posts_json w). likes_consistent p"
  shows "\<forall>p \<in> set (posts_json (snd (upload session t c file w))). likes_consistent p"
proof (cases "falsy session \<or> file = None")
  case True
  then have "snd (upload session t c file w) = w"
    by (auto simp: upload_def)
  then show ?thesis using assms by simp
next
  case False
  then obtain filename where "file = Some filename" "\<not> falsy session" by auto
  then have "\<exists>new. likes_consistent new \<and>
      posts_json (snd (upload session t c file w)) = map normalise_post (posts_json w) @ [new]"
    by (simp add: upload_def normalisePosts_def loadPosts_def Date_now_def savePosts_def
        likes_consistent_def)
  then show ?thesis using consistent_normalised [OF assms] by auto
qed

lemma like_consistent:
  assumes "\<forall>p \<in> set (posts_json w). likes_consistent p"
  shows "\<forall>p \<in> set (posts_json (snd (like session params_id w))). likes_consistent p"
proof (cases "falsy session")
  case True
  then have "snd (like session params_id w) = w"
    by (cases session) (simp_all add: like_def)
  then show ?thesis using assms by simp
next
  case False
  then obtain u where u: "session = Some u" "u \<noteq> []"
    by (cases session) simp_all
  let ?ps = "map normalise_post (posts_json w)"
  show ?thesis
  proof (cases "find (has_id (parseInt10 params_id)) ?ps")
    case None
    then have "snd (like session params_id w) = w"
      using like_result [OF u(2), of params_id w] u(1) by simp
    then show ?thesis using assms by simp
  next
    case (Some p)
    then have p: "likes_consistent p"
      using find_in_set [OF Some] consistent_normalised [OF assms] by blast
    show ?thesis
    proof (cases "toggle_like u p")
      case (Inl e)
      then have "snd (like session params_id w) = w"
        using like_result [OF u(2), of params_id w] u(1) Some by simp
      then show ?thesis using assms by simp
    next
      case (Inr p')
      then have "posts_json (snd (like session params_id w)) =
          update_first (has_id (parseInt10 params_id)) (\<lambda>q. p') ?ps"
        using like_result [OF u(2), of params_id w] u(1) Some by (simp add: savePosts_def)
      moreover have "likes_consistent p'"
        by (rule likes_consistent_toggle [OF p Inr])
      ultimately show ?thesis
        using consistent_update_first [OF consistent_normalised [OF assms]] by simp
    qed
  qed
qed

lemma add_comment_shape:
  "posts_json (snd (add_comment session params_id body_comment w)) = posts_json w \<or>
   (\<exists>p p' c. find (has_id (parseInt10 params_id)) (map normalise_post (posts_json w)) = Some p \<and>
      push_comment c p = Inr p' \<and>
      posts_json (snd (add_comment session params_id body_comment w)) =
        update_first (has_id (parseInt10 params_id)) (\<lambda>q. p') (map normalise_post (posts_json w)))"
  by (auto simp: add_comment_def normalisePosts_def loadPosts_def Date_now_def savePosts_def
      Let_def split: option.splits sum.splits)

lemma delete_comment_shape:
  "posts_json (snd (delete_comment session params_postId params_commentId w)) = posts_json w \<or>
   (\<exists>p p' u. find (has_id (parseInt10 params_postId)) (map normalise_post (posts_json w)) = Some p \<and>
      remove_comment u (parseInt10 params_commentId) p = Inr (Removed p') \<and>
      posts_json (snd (delete_comment session params_postId params_commentId w)) =
        update_first (has_id (parseInt10 params_postId)) (\<lambda>q. p') (map normalise_post (posts_json w)))"
  by (auto simp: delete_comment_def normalisePosts_def loadPosts_def savePosts_def
      Let_def split: option.splits sum.splits comment_verdict.splits)

lemma add_comment_consistent:
  assumes "\<forall>p \<in> set (posts_json w). likes_consistent p"
  shows "\<forall>p \<in> set (posts_json (snd (add_comment session params_id body_comment w))).
           likes_consistent p"
proof -
  let ?ps = "map normalise_post (posts_json w)"
  let ?after = "posts_json (snd (add_comment session params_id body_comment w))"
  consider "?after = posts_json w"
    | p p' c where "find (has_id (parseInt10 params_id)) ?ps = Some p" "push_comment c p = Inr p'"
        "?after = update_first (has_id (parseInt10 params_id)) (\<lambda>q. p') ?ps"
    using add_comment_shape [of session params_id body_comment w] by blast
  then show ?thesis
  proof cases
    case 1
    then show ?thesis using assms by simp
  next
    case 2
    have "likes_consistent p"
      using find_in_set [OF 2(1)] consistent_normalised [OF assms] by blast
    then have "likes_consistent p'"
      using 2(2) by (rule likes_consistent_push_comment)
    then show ?thesis
      using consistent_update_first [OF consistent_normalised [OF assms]] 2(3) by simp
  qed
qed

lemma delete_comment_consistent:
  assumes "\<forall>p \<in> set (posts_json w). likes_consistent p"
  shows "\<forall>p \<in> set (posts_json (snd (delete_comment session params_postId params_commentId w))).
           likes_consistent p"
proof -
  let ?ps = "map normalise_post (posts_json w)"
  let ?after = "posts_json (snd (delete_comment session params_postId params_commentId w))"
  consider "?after = posts_json w"
    | p p' u where "find (has_id (parseInt10 params_postId)) ?ps = Some p"
        "remove_comment u (parseInt10 params_commentId) p = Inr (Removed p')"
        "?after = update_first (has_id (parseInt10 params_postId)) (\<lambda>q. p') ?ps"
    using delete_comment_shape [of session params_postId params_commentId w] by blast
  then show ?thesis
  proof cases
    case 1
    then show ?thesis using assms by simp
  next
    case 2
    have "likes_consistent p"
      using find_in_set [OF 2(1)] consistent_normalised [OF assms] by blast
    then have "likes_consistent p'"
      using 2(2) by (rule likes_consistent_remove_comment)
    then show ?thesis
      using consistent_update_first [OF consistent_normalised [OF assms]] 2(3) by simp
  qed
qed

lemma delete_post_shape:
  "posts_json (snd (delete_post session params_id w)) = posts_json w \<or>
   posts_json (snd (delete_post session params_id w)) =
     filter (\<lambda>q. \<not> has_id (parseInt10 params_id) q) (map normalise_post (posts_json w))"
  by (auto simp: delete_post_def normalisePosts_def loadPosts_def savePosts_def
      Let_def split: option.splits)

lemma delete_post_consistent:
  assumes "\<forall>p \<in> set (posts_json w). likes_consistent p"
  shows "\<forall>p \<in> set (posts_json (snd (delete_post session params_id w))). likes_consistent p"
  using delete_post_shape [of session params_id w] consistent_normalised [OF assms] assms
  by auto

lemma admin_delete_post_consistent:
  assumes "\<forall>p \<in> set (posts_json w). likes_consistent p"
  shows "\<forall>p \<in> set (posts_json (snd (admin_delete_post session params_id w))). likes_consistent p"
proof (cases "fst (requireAdmin session w) = Next")
  case True
  let ?w1 = "snd (requireAdmin session w)"
  have same: "posts_json ?w1 = posts_json w" by (rule requireAdmin_posts)
  have "admin_delete_post session params_id w = admin_delete_handler params_id ?w1"
    using admin_route_pass [OF True] by (simp add: admin_delete_post_def)
  then have "posts_json (snd (admin_delete_post session params_id w)) =
      map normalise_post (filter (\<lambda>q. \<not> has_id (parseInt10 params_id) q) (posts_json w))"
    using same by (simp add: admin_delete_handler_result savePosts_def)
  then show ?thesis using assms by (simp add: likes_consistent_normalise)
next
  case False
  then have "admin_delete_post session params_id w = requireAdmin session w"
    using admin_route_block by (simp add: admin_delete_post_def)
  then show ?thesis using assms requireAdmin_posts [of session w] by simp
qed

lemma feeds_keep_store: "snd (get_index q w) = w" "snd (get_top q w) = w"
  by (simp_all add: get_index_paginates get_top_paginates split: prod.splits)

lemma post_step_consistent:
  assumes "\<forall>p \<in> set (posts_json w). likes_consistent p"
  shows "\<forall>p \<in> set (posts_json (post_step w r)). likes_consistent p"
proof (cases r)
  case (Upload s t c f)
  then show ?thesis using upload_consistent [OF assms] by simp
next
  case (Like s i)
  then show ?thesis using like_consistent [OF assms] by simp
next
  case (AddComment s i c)
  then show ?thesis using add_comment_consistent [OF assms] by simp
next
  case (DeleteComment s i c)
  then show ?thesis using delete_comment_consistent [OF assms] by simp
next
  case (DeletePost s i)
  then show ?thesis using delete_post_consistent [OF assms] by simp
next
  case (AdminDeletePost s i)
  then show ?thesis using admin_delete_post_consistent [OF assms] by simp
next
  case (Feed q)
  then show ?thesis using assms by (simp add: feeds_keep_store)
next
  case (Top q)
  then show ?thesis using assms by (simp add: feeds_keep_store)
qed

lemma run_post_requests_consistent:
  "\<forall>p \<in> set (posts_json w). likes_consistent p \<Longrightarrow>
   \<forall>p \<in> set (posts_json (run_post_requests rs w)). likes_consistent p"
proof (induction rs arbitrary: w)
  case Nil
  then show ?case by (simp add: run_post_requests_def)
next
  case (Cons r rs)
  have "\<forall>p \<in> set (posts_json (post_step w r)). likes_consistent p"
    by (rule post_step_consistent [OF Cons.prems])
  then have "\<forall>p \<in> set (posts_json (run_post_requests rs (post_step w r))). likes_consistent p"
    by (rule Cons.IH)
  then show ?case by (simp add: run_post_requests_def)
qed

lemma likes_consistent_card:
  "likes_consistent p \<Longrightarrow> likes p = JNum (int (card (set (elems (likedBy p)))))"
  by (simp add: likes_consistent_def distinct_card)

text \<open>
  C1, as the code has it: the likes invariant is inductive. If every stored post has a
  \<^verbatim>\<open>likedBy\<close> array without duplicates and a \<^verbatim>\<open>likes\<close> number equal to its length, then
  after any sequence of requests (upload, like, add comment, delete comment, delete,
  admin delete, and the feeds, each of which normalises the collection first) every stored
  post still has, and \<^verbatim>\<open>likes\<close> is the number of members of the \<^verbatim>\<open>likedBy\<close> set. The empty
  collection of a fresh installation satisfies the hypothesis.
\<close>

theorem likes_count_preserved:
  assumes "\<forall>p \<in> set (posts_json w). likes_consistent p"
  shows "\<forall>p \<in> set (posts_json (run_post_requests rs w)).
           likes_consistent p \<and> likes p = JNum (int (card (set (elems (likedBy p)))))"
  using run_post_requests_consistent [OF assms, of rs] likes_consistent_card by blast

lemma parseInt10_upload: "parseInt10 ''1700000000000'' = Some 1700000000000"
  by (simp add: parseInt10_def is_ws_def is_digit_def digit_value_def)

lemma example_run:
  "posts_json (run_post_requests example_post_requests fresh_world) =
     [\<lparr>post_id = 1700000000000, title = ''Sunset'', caption = [],
       imageFilename = ''1700000000000-7.png'', author = ''alice'',
       createdAt = 1700000000000, likes = JNum 1, likedBy = JArr [JStr ''alice''],
       comments = JArr []\<rparr>]"
  by (simp add: example_post_requests_def run_post_requests_def fresh_world_def upload_def
      like_def normalisePosts_def loadPosts_def savePosts_def Date_now_def normalise_post_def
      has_id_def toggle_like_def parseInt10_upload splice1_def Let_def)

theorem likes_count_preserved_witness:
  "posts_json fresh_world = [] \<and>
   map likes (posts_json (run_post_requests example_post_requests fresh_world)) = [JNum 1] \<and>
   map likedBy (posts_json (run_post_requests example_post_requests fresh_world)) =
     [JArr [JStr ''alice'']] \<and>
   JNum 1 = JNum (int (card (set (elems (JArr [JStr ''alice''])))))"
proof -
  have start: "\<forall>p \<in> set (posts_json fresh_world). likes_consistent p"
    by (simp add: fresh_world_def)
  have empty: "posts_json fresh_world = []"
    by (simp add: fresh_world_def)
  show ?thesis
    using likes_count_preserved [OF start, of example_post_requests]
    by (simp add: example_run empty)
qed

text \<open>
  C1, as the specification states it, fails: normalisation backfills \<^verbatim>\<open>likes\<close> and
  \<^verbatim>\<open>likedBy\<close> independently of each other. The legacy post keeps its 5 likes and gets an
  empty \<^verbatim>\<open>likedBy\<close>; after a like by bob it has 6 likes and one member of \<^verbatim>\<open>likedBy\<close>.
\<close>

theorem likes_count_counterexample:
  "\<not> (\<forall>p \<in> set (fst (normalisePosts (loadPosts legacy_world) legacy_world)).
        likes p = JNum (int (card (set (elems (likedBy p)))))) \<and>
   map likes (fst (normalisePosts (loadPosts legacy_world) legacy_world)) = [JNum 5] \<and>
   map likedBy (fst (normalisePosts (loadPosts legacy_world) legacy_world)) = [JArr []] \<and>
   map likes (posts_json (snd (like (Some ''bob'') ''1600000000000'' legacy_world))) = [JNum 6] \<and>
   map likedBy (posts_json (snd (like (Some ''bob'') ''1600000000000'' legacy_world))) =
     [JArr [JStr ''bob'']]"
proof -
  have id: "parseInt10 ''1600000000000'' = Some 1600000000000"
    by (simp add: parseInt10_def is_ws_def is_digit_def digit_value_def)
  show ?thesis
    by (simp add: normalisePosts_def loadPosts_def legacy_world_def legacy_post_def
        fresh_world_def normalise_post_def like_def savePosts_def has_id_def toggle_like_def
        id Let_def)
qed





section \<open>Follow symmetry\<close>

lemma in_followers_rel:
  "((a, b) \<in> followers_rel us) = (\<exists>u \<in> set us. username u = b \<and> a \<in> set (names_of (followers u)))"
  by (auto simp: followers_rel_def)

lemma in_following_rel:
  "((a, b) \<in> following_rel us) = (\<exists>u \<in> set us. username u = a \<and> b \<in> set (names_of (following u)))"
  by (auto simp: following_rel_def)

lemma listed_names: "listed n v = (n \<in> set (names_of v))"
  by (auto simp: listed_def names_of_def split: jsval.splits)

lemma unique_by_name:
  assumes "distinct (map username us)" "u \<in> set us" "v \<in> set us" "username u = username v"
  shows "u = v"
  using assms by (meson distinct_map inj_onD)

lemma follow_consistent_iff:
  assumes d: "distinct (map username us)"
  shows "follow_consistent us = (followers_rel us = following_rel us)"
proof
  assume fc: "follow_consistent us"
  then have refs: "\<forall>u \<in> set us. set (names_of (followers u)) \<subseteq> set (map username us) \<and>
                        set (names_of (following u)) \<subseteq> set (map username us)"
    and sym: "\<forall>a \<in> set us. \<forall>b \<in> set us.
         listed (username a) (followers b) = listed (username b) (following a)"
    by (simp_all add: follow_consistent_def)
  show "followers_rel us = following_rel us"
  proof (rule set_eqI, clarify)
    fix x y
    show "((x, y) \<in> followers_rel us) = ((x, y) \<in> following_rel us)"
    proof
      assume "(x, y) \<in> followers_rel us"
      then obtain b where b: "b \<in> set us" "username b = y" "x \<in> set (names_of (followers b))"
        by (auto simp: in_followers_rel)
      then have "x \<in> set (map username us)" using refs by blast
      then obtain a where a: "a \<in> set us" "username a = x" by auto
      have "listed (username b) (following a)"
        using sym [rule_format, OF a(1) b(1)] a(2) b(3) by (simp add: listed_names)
      then show "(x, y) \<in> following_rel us"
        using a b(2) by (auto simp: in_following_rel listed_names)
    next
      assume "(x, y) \<in> following_rel us"
      then obtain a where a: "a \<in> set us" "username a = x" "y \<in> set (names_of (following a))"
        by (auto simp: in_following_rel)
      then have "y \<in> set (map username us)" using refs by blast
      then obtain b where b: "b \<in> set us" "username b = y" by auto
      have "listed (username a) (followers b)"
        using sym [rule_format, OF a(1) b(1)] b(2) a(3) by (simp add: listed_names)
      then show "(x, y) \<in> followers_rel us"
        using b a(2) by (auto simp: in_followers_rel listed_names)
    qed
  qed
next
  assume eq: "followers_rel us = following_rel us"
  have refs: "\<forall>u \<in> set us. set (names_of (followers u)) \<subseteq> set (map username us) \<and>
                        set (names_of (following u)) \<subseteq> set (map username us)"
  proof (intro ballI conjI subsetI)
    fix u x assume u: "u \<in> set us" and x: "x \<in> set (names_of (followers u))"
    then have "(x, username u) \<in> followers_rel us" by (auto simp: in_followers_rel)
    then have "(x, username u) \<in> following_rel us" using eq by simp
    then show "x \<in> set (map username us)" by (auto simp: in_following_rel)
  next
    fix u x assume u: "u \<in> set us" and x: "x \<in> set (names_of (following u))"
    then have "(username u, x) \<in> following_rel us" by (auto simp: in_following_rel)
    then have "(username u, x) \<in> followers_rel us" using eq by simp
    then show "x \<in> set (map username us)" by (auto simp: in_followers_rel)
  qed
  have sym: "\<forall>a \<in> set us. \<forall>b \<in> set us.
         listed (username a) (followers b) = listed (username b) (following a)"
  proof (intro ballI)
    fix a b assume a: "a \<in> set us" and b: "b \<in> set us"
    have "listed (username a) (followers b) = ((username a, username b) \<in> followers_rel us)"
    proof
      assume "listed (username a) (followers b)"
      then show "(username a, username b) \<in> followers_rel us"
        using b by (auto simp: in_followers_rel listed_names)
    next
      assume "(username a, username b) \<in> followers_rel us"
      then obtain u where u: "u \<in> set us" "username u = username b"
        "username a \<in> set (names_of (followers u))"
        by (auto simp: in_followers_rel)
      then have "u = b" using unique_by_name [OF d u(1) b] by simp
      then show "listed (username a) (followers b)" using u(3) by (simp add: listed_names)
    qed
    moreover have "listed (username b) (following a) = ((username a, username b) \<in> following_rel us)"
    proof
      assume "listed (username b) (following a)"
      then show "(username a, username b) \<in> following_rel us"
        using a by (auto simp: in_following_rel listed_names)
    next
      assume "(username a, username b) \<in> following_rel us"
      then obtain u where u: "u \<in> set us" "username u = username a"
        "username b \<in> set (names_of (following u))"
        by (auto simp: in_following_rel)
      then have "u = a" using unique_by_name [OF d u(1) a] by simp
      then show "listed (username b) (following a)" using u(3) by (simp add: listed_names)
    qed
    ultimately show "listed (username a) (followers b) = listed (username b) (following a)"
      using eq by simp
  qed
  show "follow_consistent us"
    using d refs sym by (simp add: follow_consistent_def)
qed

lemma mem_names: "(n \<in> set (names_of v)) = (JStr n \<in> set (elems v))"
  using listed_names [of n v] by (simp add: listed_def)

lemma push_following_props:
  assumes "push_following t u = Inr u'"
  shows "username u' = username u" "followers u' = followers u"
    "set (names_of (following u')) = insert t (set (names_of (following u)))"
proof -
  obtain xs where xs: "following u = JArr xs"
    using assms by (cases "following u") (simp_all add: push_following_def)
  then have u': "u' = (if JStr t \<notin> set xs then u\<lparr>following := JArr (xs @ [JStr t])\<rparr> else u)"
    using assms by (simp add: push_following_def)
  show "username u' = username u" "followers u' = followers u"
    using u' by simp_all
  show "set (names_of (following u')) = insert t (set (names_of (following u)))"
    using u' xs by (auto simp: mem_names)
qed

lemma push_followers_props:
  assumes "push_followers m u = Inr u'"
  shows "username u' = username u" "following u' = following u"
    "set (names_of (followers u')) = insert m (set (names_of (followers u)))"
proof -
  obtain xs where xs: "followers u = JArr xs"
    using assms by (cases "followers u") (simp_all add: push_followers_def)
  then have u': "u' = (if JStr m \<notin> set xs then u\<lparr>followers := JArr (xs @ [JStr m])\<rparr> else u)"
    using assms by (simp add: push_followers_def)
  show "username u' = username u" "following u' = following u"
    using u' by simp_all
  show "set (names_of (followers u')) = insert m (set (names_of (followers u)))"
    using u' xs by (auto simp: mem_names)
qed

lemma filter_following_props:
  assumes "filter_following t u = Inr u'"
  shows "username u' = username u" "followers u' = followers u"
    "set (names_of (following u')) = set (names_of (following u)) - {t}"
proof -
  obtain xs where xs: "following u = JArr xs"
    using assms by (cases "following u") (simp_all add: filter_following_def)
  then have u': "u' = u\<lparr>following := JArr (filter (\<lambda>n. n \<noteq> JStr t) xs)\<rparr>"
    using assms by (simp add: filter_following_def)
  show "username u' = username u" "followers u' = followers u"
    using u' by simp_all
  show "set (names_of (following u')) = set (names_of (following u)) - {t}"
    using u' xs by (auto simp: mem_names)
qed

lemma filter_followers_props:
  assumes "filter_followers m u = Inr u'"
  shows "username u' = username u" "following u' = following u"
    "set (names_of (followers u')) = set (names_of (followers u)) - {m}"
proof -
  obtain xs where xs: "followers u = JArr xs"
    using assms by (cases "followers u") (simp_all add: filter_followers_def)
  then have u': "u' = u\<lparr>followers := JArr (filter (\<lambda>n. n \<noteq> JStr m) xs)\<rparr>"
    using assms by (simp add: filter_followers_def)
  show "username u' = username u" "following u' = following u"
    using u' by simp_all
  show "set (names_of (followers u')) = set (names_of (followers u)) - {m}"
    using u' xs by (auto simp: mem_names)
qed

lemma in_followers_rel_map:
  assumes "\<forall>u. username (f u) = username u"
  shows "((a, b) \<in> followers_rel (map f us)) =
     (\<exists>u \<in> set us. username u = b \<and> a \<in> set (names_of (followers (f u))))"
  using assms by (auto simp: in_followers_rel)

lemma in_following_rel_map:
  assumes "\<forall>u. username (f u) = username u"
  shows "((a, b) \<in> following_rel (map f us)) =
     (\<exists>u \<in> set us. username u = a \<and> b \<in> set (names_of (following (f u))))"
  using assms by (auto simp: in_following_rel)

lemma update_first_as_map:
  "distinct (map username us) \<Longrightarrow>
   update_first (has_username n) f us = map (\<lambda>u. if username u = n then f u else u) us"
proof (induction us)
  case Nil
  show ?case by simp
next
  case (Cons x xs)
  show ?case
  proof (cases "username x = n")
    case True
    then have "n \<notin> username ` set xs" using Cons.prems by simp
    then have "\<forall>u \<in> set xs. username u \<noteq> n" by blast
    then have "map (\<lambda>u. if username u = n then f u else u) xs = xs"
      by (simp add: map_idI)
    with True show ?thesis by (simp add: has_username_def)
  next
    case False
    then show ?thesis using Cons by (simp add: has_username_def)
  qed
qed

text \<open>
  The collection after the two assignments of \<^verbatim>\<open>/follow\<close> and \<^verbatim>\<open>/unfollow\<close>: the user named
  \<open>m\<close> is replaced by \<open>me'\<close> and the user named \<open>t\<close> by \<open>target'\<close>.
\<close>

lemma two_updates:
  assumes d: "distinct (map username us)"
    and me: "find (has_username m) us = Some me"
    and tg: "find (has_username t) us = Some target"
    and neq: "m \<noteq> t"
    and nm: "username me' = username me" and nt: "username target' = username target"
    and keep1: "followers me' = followers me" and keep2: "following target' = following target"
  shows "map username (update_first (has_username t) (\<lambda>u. target')
           (update_first (has_username m) (\<lambda>u. me') us)) = map username us"
    and "((a, b) \<in> followers_rel (update_first (has_username t) (\<lambda>u. target')
           (update_first (has_username m) (\<lambda>u. me') us))) =
         (if b = t then a \<in> set (names_of (followers target')) else (a, b) \<in> followers_rel us)"
    and "((a, b) \<in> following_rel (update_first (has_username t) (\<lambda>u. target')
           (update_first (has_username m) (\<lambda>u. me') us))) =
         (if a = m then b \<in> set (names_of (following me')) else (a, b) \<in> following_rel us)"
    and "((a, t) \<in> followers_rel us) = (a \<in> set (names_of (followers target)))"
    and "((m, b) \<in> following_rel us) = (b \<in> set (names_of (following me)))"
proof -
  let ?us1 = "update_first (has_username m) (\<lambda>u. me') us"
  let ?us2 = "update_first (has_username t) (\<lambda>u. target') ?us1"
  let ?upd = "\<lambda>u. if username u = t then target' else if username u = m then me' else u"
  have me_in: "me \<in> set us" "username me = m"
    using find_SomeD_both [OF me] by (simp_all add: has_username_def)
  have tg_in: "target \<in> set us" "username target = t"
    using find_SomeD_both [OF tg] by (simp_all add: has_username_def)
  have only_me: "u = me" if "u \<in> set us" "username u = m" for u
    using unique_by_name [OF d that(1) me_in(1)] that(2) me_in(2) by simp
  have only_tg: "u = target" if "u \<in> set us" "username u = t" for u
    using unique_by_name [OF d that(1) tg_in(1)] that(2) tg_in(2) by simp
  have us1: "?us1 = map (\<lambda>u. if username u = m then me' else u) us"
    by (rule update_first_as_map [OF d])
  have names1: "map username ?us1 = map username us"
    unfolding us1 using nm me_in(2) by (simp add: o_def cong: map_cong)
  then have d1: "distinct (map username ?us1)" using d by simp
  have "?us2 = map (\<lambda>u. if username u = t then target' else u) ?us1"
    by (rule update_first_as_map [OF d1])
  then have us2: "?us2 = map ?upd us"
    unfolding us1 using nm me_in(2) neq by (simp add: o_def cong: map_cong)
  show "map username ?us2 = map username us"
    unfolding us2 using nm nt me_in(2) tg_in(2) by (simp add: o_def cong: map_cong)
  have upd_name: "\<forall>u. username (?upd u) = username u"
    using nm nt me_in(2) tg_in(2) by simp
  show "((a, b) \<in> followers_rel ?us2) =
         (if b = t then a \<in> set (names_of (followers target')) else (a, b) \<in> followers_rel us)"
  proof (cases "b = t")
    case True
    have "((a, t) \<in> followers_rel ?us2) =
        (\<exists>u \<in> set us. username u = t \<and> a \<in> set (names_of (followers (?upd u))))"
      unfolding us2 by (rule in_followers_rel_map [OF upd_name])
    also have "\<dots> = (a \<in> set (names_of (followers target')))"
      using tg_in only_tg by auto
    finally show ?thesis using True by simp
  next
    case False
    have "((a, b) \<in> followers_rel ?us2) =
        (\<exists>u \<in> set us. username u = b \<and> a \<in> set (names_of (followers (?upd u))))"
      unfolding us2 by (rule in_followers_rel_map [OF upd_name])
    also have "\<dots> = (\<exists>u \<in> set us. username u = b \<and> a \<in> set (names_of (followers u)))"
      using False keep1 only_me by (auto simp: Bex_def)
    finally show ?thesis using False by (simp add: in_followers_rel)
  qed
  show "((a, b) \<in> following_rel ?us2) =
         (if a = m then b \<in> set (names_of (following me')) else (a, b) \<in> following_rel us)"
  proof (cases "a = m")
    case True
    have "((m, b) \<in> following_rel ?us2) =
        (\<exists>u \<in> set us. username u = m \<and> b \<in> set (names_of (following (?upd u))))"
      unfolding us2 by (rule in_following_rel_map [OF upd_name])
    also have "\<dots> = (b \<in> set (names_of (following me')))"
      using me_in only_me neq by auto
    finally show ?thesis using True by simp
  next
    case False
    have "((a, b) \<in> following_rel ?us2) =
        (\<exists>u \<in> set us. username u = a \<and> b \<in> set (names_of (following (?upd u))))"
      unfolding us2 by (rule in_following_rel_map [OF upd_name])
    also have "\<dots> = (\<exists>u \<in> set us. username u = a \<and> b \<in> set (names_of (following u)))"
      using False keep2 only_tg by (auto simp: Bex_def)
    finally show ?thesis using False by (simp add: in_following_rel)
  qed
  show "((a, t) \<in> followers_rel us) = (a \<in> set (names_of (followers target)))"
  proof
    assume "(a, t) \<in> followers_rel us"
    then obtain u where u: "u \<in> set us" "username u = t" "a \<in> set (names_of (followers u))"
      unfolding in_followers_rel by blast
    then have "u = target" using only_tg by blast
    then show "a \<in> set (names_of (followers target))" using u(3) by simp
  next
    assume "a \<in> set (names_of (followers target))"
    then show "(a, t) \<in> followers_rel us"
      unfolding in_followers_rel using tg_in by blast
  qed
  show "((m, b) \<in> following_rel us) = (b \<in> set (names_of (following me)))"
  proof
    assume "(m, b) \<in> following_rel us"
    then obtain u where u: "u \<in> set us" "username u = m" "b \<in> set (names_of (following u))"
      unfolding in_following_rel by blast
    then have "u = me" using only_me by blast
    then show "b \<in> set (names_of (following me))" using u(3) by simp
  next
    assume "b \<in> set (names_of (following me))"
    then show "(m, b) \<in> following_rel us"
      unfolding in_following_rel using me_in by blast
  qed
qed

lemma followers_rel_Cons:
  "followers_rel (u # us) =
     (\<lambda>a. (a, username u)) ` set (names_of (followers u)) \<union> followers_rel us"
  by (simp add: followers_rel_def)

lemma following_rel_Cons:
  "following_rel (u # us) =
     (\<lambda>b. (username u, b)) ` set (names_of (following u)) \<union> following_rel us"
  by (simp add: following_rel_def)

lemma rels_Nil: "followers_rel [] = {}" "following_rel [] = {}"
  by (simp_all add: followers_rel_def following_rel_def)

lemma rels_append:
  "followers_rel (us @ vs) = followers_rel us \<union> followers_rel vs"
  "following_rel (us @ vs) = following_rel us \<union> following_rel vs"
  by (simp_all add: followers_rel_def following_rel_def)

lemma names_of_cong: "elems v = elems v' \<Longrightarrow> names_of v = names_of v'"
  by (simp add: names_of_def)

lemma follow_consistent_transfer:
  assumes "follow_consistent us" "map username us' = map username us"
    "followers_rel us' = followers_rel us" "following_rel us' = following_rel us"
  shows "follow_consistent us'"
proof -
  have d: "distinct (map username us)" using assms(1) by (simp add: follow_consistent_def)
  then have "followers_rel us = following_rel us"
    using assms(1) follow_consistent_iff by blast
  moreover have "distinct (map username us')" using d assms(2) by simp
  ultimately show ?thesis
    using assms(3,4) follow_consistent_iff by simp
qed

lemma normalised_view:
  assumes "list_all2 (\<lambda>u u'. \<exists>c w. u' = fst (normalise_user u c w)) us us'"
  shows "map username us' = map username us \<and> followers_rel us' = followers_rel us \<and>
         following_rel us' = following_rel us"
  using assms
proof (induction us us' rule: list_all2_induct)
  case Nil
  show ?case by simp
next
  case (Cons u us u' us')
  then obtain c w where u': "u' = fst (normalise_user u c w)" by blast
  have "username u' = username u"
    unfolding u' by (simp add: normalise_user_keeps)
  moreover have "names_of (followers u') = names_of (followers u)"
    unfolding u' by (rule names_of_cong) (simp add: normalise_user_keeps)
  moreover have "names_of (following u') = names_of (following u)"
    unfolding u' by (rule names_of_cong) (simp add: normalise_user_keeps)
  ultimately show ?case using Cons.IH by (simp add: followers_rel_Cons following_rel_Cons)
qed

lemma normaliseUsers_consistent:
  assumes "follow_consistent us"
  shows "follow_consistent (fst (normaliseUsers us w))"
  using follow_consistent_transfer [OF assms] normalised_view [OF normaliseUsers_rel [of us w]]
  by blast

lemma update_first_view:
  assumes "\<forall>u. username (f u) = username u \<and> followers (f u) = followers u \<and>
               following (f u) = following u"
  shows "map username (update_first P f us) = map username us \<and>
         followers_rel (update_first P f us) = followers_rel us \<and>
         following_rel (update_first P f us) = following_rel us"
proof (induction us)
  case Nil
  show ?case by simp
next
  case (Cons u us)
  have "username (f u) = username u" "followers (f u) = followers u"
    "following (f u) = following u"
    using assms by simp_all
  then show ?case using Cons.IH by (simp add: followers_rel_Cons following_rel_Cons)
qed

lemma follow_updates_consistent:
  assumes fc: "follow_consistent us"
    and me: "find (has_username m) us = Some me"
    and tg: "find (has_username t) us = Some target"
    and neq: "m \<noteq> t"
    and p1: "push_following t me = Inr me'"
    and p2: "push_followers m target = Inr target'"
  shows "follow_consistent (update_first (has_username t) (\<lambda>u. target')
           (update_first (has_username m) (\<lambda>u. me') us))"
proof -
  let ?us2 = "update_first (has_username t) (\<lambda>u. target')
           (update_first (has_username m) (\<lambda>u. me') us)"
  have d: "distinct (map username us)" using fc by (simp add: follow_consistent_def)
  have eq: "followers_rel us = following_rel us"
    using fc follow_consistent_iff [OF d] by simp
  note upd = two_updates [OF d me tg neq push_following_props(1) [OF p1]
      push_followers_props(1) [OF p2] push_following_props(2) [OF p1]
      push_followers_props(2) [OF p2]]
  have d2: "distinct (map username ?us2)" using upd(1) d by simp
  have "followers_rel ?us2 = following_rel ?us2"
  proof (rule set_eqI, clarify)
    fix a b
    have "((a, b) \<in> followers_rel ?us2) = ((a, b) \<in> followers_rel us \<or> (a = m \<and> b = t))"
      using upd(2) [of a b] upd(4) [of a] push_followers_props(3) [OF p2] by auto
    moreover have "((a, b) \<in> following_rel ?us2) = ((a, b) \<in> following_rel us \<or> (a = m \<and> b = t))"
      using upd(3) [of a b] upd(5) [of b] push_following_props(3) [OF p1] by auto
    ultimately show "((a, b) \<in> followers_rel ?us2) = ((a, b) \<in> following_rel ?us2)"
      using eq by simp
  qed
  then show ?thesis using follow_consistent_iff [OF d2] by simp
qed

lemma unfollow_updates_consistent:
  assumes fc: "follow_consistent us"
    and me: "find (has_username m) us = Some me"
    and tg: "find (has_username t) us = Some target"
    and neq: "m \<noteq> t"
    and p1: "filter_following t me = Inr me'"
    and p2: "filter_followers m target = Inr target'"
  shows "follow_consistent (update_first (has_username t) (\<lambda>u. target')
           (update_first (has_username m) (\<lambda>u. me') us))"
proof -
  let ?us2 = "update_first (has_username t) (\<lambda>u. target')
           (update_first (has_username m) (\<lambda>u. me') us)"
  have d: "distinct (map username us)" using fc by (simp add: follow_consistent_def)
  have eq: "followers_rel us = following_rel us"
    using fc follow_consistent_iff [OF d] by simp
  note upd = two_updates [OF d me tg neq filter_following_props(1) [OF p1]
      filter_followers_props(1) [OF p2] filter_following_props(2) [OF p1]
      filter_followers_props(2) [OF p2]]
  have d2: "distinct (map username ?us2)" using upd(1) d by simp
  have "followers_rel ?us2 = following_rel ?us2"
  proof (rule set_eqI, clarify)
    fix a b
    have "((a, b) \<in> followers_rel ?us2) = ((a, b) \<in> followers_rel us \<and> \<not> (a = m \<and> b = t))"
      using upd(2) [of a b] upd(4) [of a] filter_followers_props(3) [OF p2] by auto
    moreover have "((a, b) \<in> following_rel ?us2) = ((a, b) \<in> following_rel us \<and> \<not> (a = m \<and> b = t))"
      using upd(3) [of a b] upd(5) [of b] filter_following_props(3) [OF p1] by auto
    ultimately show "((a, b) \<in> followers_rel ?us2) = ((a, b) \<in> following_rel ?us2)"
      using eq by simp
  qed
  then show ?thesis using follow_consistent_iff [OF d2] by simp
qed

lemma follow_shape:
  "users_json (snd (follow s t w)) = users_json w \<or>
   users_json (snd (follow s t w)) = fst (normaliseUsers (users_json w) w) \<or>
   (\<exists>m me target me' target'. m \<noteq> t \<and>
      find (has_username m) (fst (normaliseUsers (users_json w) w)) = Some me \<and>
      find (has_username t) (fst (normaliseUsers (users_json w) w)) = Some target \<and>
      push_following t me = Inr me' \<and> push_followers m target = Inr target' \<and>
      users_json (snd (follow s t w)) =
        update_first (has_username t) (\<lambda>u. target')
          (update_first (has_username m) (\<lambda>u. me') (fst (normaliseUsers (users_json w) w))))"
proof -
  obtain us' w1 where norm: "normaliseUsers (users_json w) w = (us', w1)"
    by (metis surj_pair)
  have stored: "users_json w1 = us'"
    using normaliseUsers_store [of w] norm by simp
  show ?thesis
    using norm stored
    by (auto simp: follow_def loadUsers_def saveUsers_def split: option.splits sum.splits)
qed

lemma unfollow_shape:
  "users_json (snd (unfollow s t w)) = users_json w \<or>
   users_json (snd (unfollow s t w)) = fst (normaliseUsers (users_json w) w) \<or>
   (\<exists>m me target me' target'. m \<noteq> t \<and>
      find (has_username m) (fst (normaliseUsers (users_json w) w)) = Some me \<and>
      find (has_username t) (fst (normaliseUsers (users_json w) w)) = Some target \<and>
      filter_following t me = Inr me' \<and> filter_followers m target = Inr target' \<and>
      users_json (snd (unfollow s t w)) =
        update_first (has_username t) (\<lambda>u. target')
          (update_first (has_username m) (\<lambda>u. me') (fst (normaliseUsers (users_json w) w))))"
proof -
  obtain us' w1 where norm: "normaliseUsers (users_json w) w = (us', w1)"
    by (metis surj_pair)
  have stored: "users_json w1 = us'"
    using normaliseUsers_store [of w] norm by simp
  show ?thesis
    using norm stored
    by (auto simp: unfollow_def loadUsers_def saveUsers_def split: option.splits sum.splits)
qed

lemma follow_handler_consistent:
  assumes "follow_consistent (users_json w)"
  shows "follow_consistent (users_json (snd (follow s t w)))"
proof -
  let ?us = "fst (normaliseUsers (users_json w) w)"
  have n: "follow_consistent ?us" by (rule normaliseUsers_consistent [OF assms])
  consider "users_json (snd (follow s t w)) = users_json w"
    | "users_json (snd (follow s t w)) = ?us"
    | m me target me' target' where "m \<noteq> t" "find (has_username m) ?us = Some me"
        "find (has_username t) ?us = Some target"
        "push_following t me = Inr me'" "push_followers m target = Inr target'"
        "users_json (snd (follow s t w)) =
           update_first (has_username t) (\<lambda>u. target') (update_first (has_username m) (\<lambda>u. me') ?us)"
    using follow_shape [of s t w] by blast
  then show ?thesis
  proof cases
    case 1
    then show ?thesis using assms by simp
  next
    case 2
    then show ?thesis using n by simp
  next
    case 3
    then show ?thesis
      using follow_updates_consistent [OF n 3(2) 3(3) 3(1) 3(4) 3(5)] by simp
  qed
qed

lemma unfollow_handler_consistent:
  assumes "follow_consistent (users_json w)"
  shows "follow_consistent (users_json (snd (unfollow s t w)))"
proof -
  let ?us = "fst (normaliseUsers (users_json w) w)"
  have n: "follow_consistent ?us" by (rule normaliseUsers_consistent [OF assms])
  consider "users_json (snd (unfollow s t w)) = users_json w"
    | "users_json (snd (unfollow s t w)) = ?us"
    | m me target me' target' where "m \<noteq> t" "find (has_username m) ?us = Some me"
        "find (has_username t) ?us = Some target"
        "filter_following t me = Inr me'" "filter_followers m target = Inr target'"
        "users_json (snd (unfollow s t w)) =
           update_first (has_username t) (\<lambda>u. target') (update_first (has_username m) (\<lambda>u. me') ?us)"
    using unfollow_shape [of s t w] by blast
  then show ?thesis
  proof cases
    case 1
    then show ?thesis using assms by simp
  next
    case 2
    then show ?thesis using n by simp
  next
    case 3
    then show ?thesis
      using unfollow_updates_consistent [OF n 3(2) 3(3) 3(1) 3(4) 3(5)] by simp
  qed
qed

lemma requireAdmin_shape:
  "users_json (snd (requireAdmin s w)) = users_json w \<or>
   users_json (snd (requireAdmin s w)) = fst (normaliseUsers (users_json w) w)"
proof -
  obtain us' w1 where norm: "normaliseUsers (users_json w) w = (us', w1)"
    by (metis surj_pair)
  have stored: "users_json w1 = us'"
    using normaliseUsers_store [of w] norm by simp
  show ?thesis
    using norm stored
    by (auto simp: requireAdmin_def loadUsers_def split: option.splits)
qed

lemma requireAdmin_consistent:
  assumes "follow_consistent (users_json w)"
  shows "follow_consistent (users_json (snd (requireAdmin s w)))"
  using requireAdmin_shape [of s w] assms normaliseUsers_consistent [OF assms, of w] by auto

lemma set_user_field_shape:
  "users_json (snd (set_user_field f name w)) = fst (normaliseUsers (users_json w) w) \<or>
   users_json (snd (set_user_field f name w)) =
     update_first (has_username name) f (fst (normaliseUsers (users_json w) w))"
proof -
  obtain us' w1 where norm: "normaliseUsers (users_json w) w = (us', w1)"
    by (metis surj_pair)
  have stored: "users_json w1 = us'"
    using normaliseUsers_store [of w] norm by simp
  show ?thesis
    using norm stored
    by (auto simp: set_user_field_def loadUsers_def saveUsers_def split: option.splits)
qed

lemma set_user_field_consistent:
  assumes "follow_consistent (users_json w)"
    and "\<forall>u. username (f u) = username u \<and> followers (f u) = followers u \<and>
             following (f u) = following u"
  shows "follow_consistent (users_json (snd (set_user_field f name w)))"
proof -
  let ?us = "fst (normaliseUsers (users_json w) w)"
  have n: "follow_consistent ?us" by (rule normaliseUsers_consistent [OF assms(1)])
  have "follow_consistent (update_first (has_username name) f ?us)"
    using follow_consistent_transfer [OF n] update_first_view [OF assms(2)] by blast
  then show ?thesis using set_user_field_shape [of f name w] n by auto
qed

lemma admin_route_consistent:
  assumes "follow_consistent (users_json w)"
    and "\<And>v. follow_consistent (users_json v) \<Longrightarrow> follow_consistent (users_json (snd (handler v)))"
  shows "follow_consistent (users_json (snd (admin_route handler s w)))"
proof (cases "fst (requireAdmin s w) = Next")
  case True
  then have "admin_route handler s w = handler (snd (requireAdmin s w))"
    by (rule admin_route_pass)
  then show ?thesis using assms(2) [OF requireAdmin_consistent [OF assms(1)]] by simp
next
  case False
  then have "admin_route handler s w = requireAdmin s w"
    by (rule admin_route_block)
  then show ?thesis using requireAdmin_consistent [OF assms(1)] by simp
qed

lemma register_shape:
  "users_json (snd (snd (register body s w))) = users_json w \<or>
   users_json (snd (snd (register body s w))) = fst (normaliseUsers (users_json w) w) \<or>
   (\<exists>new. username new \<notin> set (map username (fst (normaliseUsers (users_json w) w))) \<and>
      followers new = JArr [] \<and> following new = JArr [] \<and>
      users_json (snd (snd (register body s w))) = fst (normaliseUsers (users_json w) w) @ [new])"
proof -
  obtain us' w1 where norm: "normaliseUsers (users_json w) w = (us', w1)"
    by (metis surj_pair)
  have stored: "users_json w1 = us'"
    using normaliseUsers_store [of w] norm by simp
  have fresh: "find (has_username n) us' = None \<Longrightarrow> n \<notin> set (map username us')" for n
    by (auto simp: find_None_iff has_username_def)
  show ?thesis
    using norm stored fresh
    by (auto simp: register_def loadUsers_def saveUsers_def Date_now_def Let_def
        split: option.splits)
qed

lemma append_user_consistent:
  assumes fc: "follow_consistent us"
    and new: "username new \<notin> set (map username us)" "followers new = JArr []"
      "following new = JArr []"
  shows "follow_consistent (us @ [new])"
proof -
  have d: "distinct (map username us)" using fc by (simp add: follow_consistent_def)
  then have d': "distinct (map username (us @ [new]))" using new(1) by simp
  have "followers_rel (us @ [new]) = followers_rel us" "following_rel (us @ [new]) = following_rel us"
    using new(2,3) by (simp_all add: rels_append followers_rel_Cons following_rel_Cons rels_Nil names_of_def)
  moreover have "followers_rel us = following_rel us"
    using fc follow_consistent_iff [OF d] by simp
  ultimately show ?thesis using follow_consistent_iff [OF d'] by simp
qed

lemma register_consistent:
  assumes "follow_consistent (users_json w)"
  shows "follow_consistent (users_json (snd (snd (register body s w))))"
proof -
  let ?us = "fst (normaliseUsers (users_json w) w)"
  let ?after = "users_json (snd (snd (register body s w)))"
  have n: "follow_consistent ?us" by (rule normaliseUsers_consistent [OF assms])
  consider "?after = users_json w" | "?after = ?us"
    | new where "username new \<notin> set (map username ?us)" "followers new = JArr []"
        "following new = JArr []" "?after = ?us @ [new]"
    using register_shape [of body s w] by blast
  then show ?thesis
  proof cases
    case 1
    then show ?thesis using assms by simp
  next
    case 2
    then show ?thesis using n by simp
  next
    case 3
    then show ?thesis using append_user_consistent [OF n 3(1,2,3)] by simp
  qed
qed

lemma login_store:
  "users_json (snd (snd (login bu bp s w))) = fst (normaliseUsers (users_json w) w)"
proof -
  obtain us' w1 where norm: "normaliseUsers (users_json w) w = (us', w1)"
    by (metis surj_pair)
  have stored: "users_json w1 = us'"
    using normaliseUsers_store [of w] norm by simp
  show ?thesis
    using norm stored by (simp add: login_def loadUsers_def split: option.splits)
qed

lemma attach_current_user_shape:
  "users_json (attach_current_user s w) = users_json w \<or>
   users_json (attach_current_user s w) = fst (normaliseUsers (users_json w) w)"
  using normaliseUsers_store [of w] by (simp add: attach_current_user_def loadUsers_def)

lemma user_step_consistent:
  assumes "follow_consistent (users_json w)"
  shows "follow_consistent (users_json (user_step w r))"
proof (cases r)
  case (Register body)
  then show ?thesis using register_consistent [OF assms] by simp
next
  case (Login name password)
  then show ?thesis using normaliseUsers_consistent [OF assms] by (simp add: login_store)
next
  case (Follow s t)
  then show ?thesis using follow_handler_consistent [OF assms] by simp
next
  case (Unfollow s t)
  then show ?thesis using unfollow_handler_consistent [OF assms] by simp
next
  case (Ban s name)
  have "follow_consistent (users_json (snd (admin_ban s name w)))"
    unfolding admin_ban_def
    by (rule admin_route_consistent [OF assms]) (rule set_user_field_consistent, simp_all)
  with Ban show ?thesis by simp
next
  case (Unban s name)
  have "follow_consistent (users_json (snd (admin_unban s name w)))"
    unfolding admin_unban_def
    by (rule admin_route_consistent [OF assms]) (rule set_user_field_consistent, simp_all)
  with Unban show ?thesis by simp
next
  case (MakeAdmin s name)
  have "follow_consistent (users_json (snd (admin_make_admin s name w)))"
    unfolding admin_make_admin_def
    by (rule admin_route_consistent [OF assms]) (rule set_user_field_consistent, simp_all)
  with MakeAdmin show ?thesis by simp
next
  case (Visit s)
  then show ?thesis
    using attach_current_user_shape [of s w] assms normaliseUsers_consistent [OF assms, of w]
    by auto
qed

lemma run_user_requests_consistent:
  "follow_consistent (users_json w) \<Longrightarrow>
   follow_consistent (users_json (run_user_requests rs w))"
proof (induction rs arbitrary: w)
  case Nil
  then show ?case by (simp add: run_user_requests_def)
next
  case (Cons r rs)
  have "follow_consistent (users_json (user_step w r))"
    by (rule user_step_consistent [OF Cons.prems])
  then have "follow_consistent (users_json (run_user_requests rs (user_step w r)))"
    by (rule Cons.IH)
  then show ?case by (simp add: run_user_requests_def)
qed

text \<open>
  C2, as the code has it: follow symmetry is preserved by every request that changes the
  users. Starting from a collection whose follow relation is consistent (unique user
  names, every listed name that of a user, and \<open>a\<close> among the followers of \<open>b\<close> exactly when
  \<open>b\<close> is in the following of \<open>a\<close>), as the empty collection of a fresh installation is,
  every sequence of register, login, follow, unfollow, ban, unban, make-admin requests and
  of normalisations leaves it consistent; in particular, for any two users \<open>a\<close> and \<open>b\<close> of
  the resulting collection with different names, \<open>a\<close> is a member of \<open>b\<close>'s followers if and
  only if \<open>b\<close> is a member of \<open>a\<close>'s following.
\<close>

theorem follow_symmetry_preserved:
  assumes "follow_consistent (users_json w)"
  shows "follow_consistent (users_json (run_user_requests rs w)) \<and>
         (\<forall>a \<in> set (users_json (run_user_requests rs w)).
          \<forall>b \<in> set (users_json (run_user_requests rs w)).
            username a \<noteq> username b \<longrightarrow>
            (JStr (username a) \<in> set (elems (followers b))) =
            (JStr (username b) \<in> set (elems (following a))))"
proof -
  have fc: "follow_consistent (users_json (run_user_requests rs w))"
    by (rule run_user_requests_consistent [OF assms])
  then have "\<forall>a \<in> set (users_json (run_user_requests rs w)).
          \<forall>b \<in> set (users_json (run_user_requests rs w)).
            listed (username a) (followers b) = listed (username b) (following a)"
    by (simp add: follow_consistent_def)
  then have "\<forall>a \<in> set (users_json (run_user_requests rs w)).
          \<forall>b \<in> set (users_json (run_user_requests rs w)).
            username a \<noteq> username b \<longrightarrow>
            (JStr (username a) \<in> set (elems (followers b))) =
            (JStr (username b) \<in> set (elems (following a)))"
    by (simp add: listed_def)
  with fc show ?thesis by (rule conjI)
qed

lemma example_users:
  "users_json (run_user_requests example_user_requests fresh_world) =
     [\<lparr>username = ''alice'', email = ''a@example.org'', passwordPlain = ''pw1'',
       joinedAt = JNum 1700000000000, isAdmin = JBool True, banned = JBool False,
       followers = JArr [], following = JArr [JStr ''bob'']\<rparr>,
      \<lparr>username = ''bob'', email = [], passwordPlain = ''pw2'',
       joinedAt = JNum 1700000000001, isAdmin = JBool False, banned = JBool True,
       followers = JArr [JStr ''alice''], following = JArr []\<rparr>]"
  by (simp add: example_user_requests_def run_user_requests_def fresh_world_def
      alice_form_def bob_form_def register_def follow_def unfollow_def admin_ban_def
      admin_route_def requireAdmin_def set_user_field_def login_def normaliseUsers_def
      normalise_user_def loadUsers_def saveUsers_def Date_now_def has_username_def
      push_following_def push_followers_def filter_following_def filter_followers_def Let_def)

theorem follow_symmetry_preserved_witness:
  "follow_consistent (users_json fresh_world) \<and>
   follow_consistent (users_json (run_user_requests example_user_requests fresh_world)) \<and>
   map username (users_json (run_user_requests example_user_requests fresh_world)) =
     [''alice'', ''bob''] \<and>
   map followers (users_json (run_user_requests example_user_requests fresh_world)) =
     [JArr [], JArr [JStr ''alice'']] \<and>
   map following (users_json (run_user_requests example_user_requests fresh_world)) =
     [JArr [JStr ''bob''], JArr []] \<and>
   (JStr ''alice'' \<in> set (elems (JArr [JStr ''alice'']))) =
     (JStr ''bob'' \<in> set (elems (JArr [JStr ''bob''])))"
proof -
  have start: "follow_consistent (users_json fresh_world)"
    by (simp add: follow_consistent_def fresh_world_def)
  show ?thesis
    using follow_symmetry_preserved [OF start, of example_user_requests] start
    by (simp add: example_users)
qed

text \<open>
  C2, as the specification states it, fails: normalisation backfills \<^verbatim>\<open>followers\<close> and
  \<^verbatim>\<open>following\<close> independently of each other and of the other records. In the stored
  collection ann lists ben among her followers, and ben has no \<^verbatim>\<open>following\<close> field; after
  the normalisation that a request of ann triggers, ben is a follower of ann and follows
  nobody.
\<close>

theorem follow_symmetry_counterexample:
  "map followers (users_json (run_user_requests [Visit (Some ''ann'')] lopsided_world)) =
     [JArr [JStr ''ben''], JArr []] \<and>
   map following (users_json (run_user_requests [Visit (Some ''ann'')] lopsided_world)) =
     [JArr [], JArr []] \<and>
   map username (users_json (run_user_requests [Visit (Some ''ann'')] lopsided_world)) =
     [''ann'', ''ben''] \<and>
   \<not> (\<forall>a \<in> set (users_json (run_user_requests [Visit (Some ''ann'')] lopsided_world)).
       \<forall>b \<in> set (users_json (run_user_requests [Visit (Some ''ann'')] lopsided_world)).
         username a \<noteq> username b \<longrightarrow>
         (JStr (username a) \<in> set (elems (followers b))) =
         (JStr (username b) \<in> set (elems (following a))))"
  by (simp add: run_user_requests_def attach_current_user_def loadUsers_def lopsided_world_def
      fresh_world_def ann_def ben_def normaliseUsers_def normalise_user_def saveUsers_def
      Date_now_def Let_def)

end
